theory Spec2Isabelle
  imports Main "HOL-Library.Sublist" "HOL-Library.AList"
begin

section \<open>Strings\<close>

text \<open>
  JavaScript strings are modelled as \<^typ>\<open>string\<close>, the UTF-8 bytes of the text. The
  three non-ASCII characters of \<^verbatim>\<open>index.js\<close> (the check mark, the cross mark and the
  em dash of the signature) are written as their UTF-8 bytes. Case mapping and the
  character classes cover the ASCII range: \<^verbatim>\<open>toLowerCase\<close> maps A..Z, white space is
  tab, line feed, vertical tab, form feed, carriage return and space, and the line
  terminators are line feed and carriage return.
\<close>

definition toLowerChar :: "char \<Rightarrow> char" where
  "toLowerChar c =
     (if 65 \<le> (of_char c :: nat) \<and> (of_char c :: nat) \<le> 90
      then char_of ((of_char c :: nat) + 32) else c)"

definition toLowerCase :: "string \<Rightarrow> string" where
  "toLowerCase s = map toLowerChar s"

definition is_space :: "char \<Rightarrow> bool" where
  "is_space c = ((of_char c :: nat) = 32 \<or> (9 \<le> (of_char c :: nat) \<and> (of_char c :: nat) \<le> 13))"

definition is_line_terminator :: "char \<Rightarrow> bool" where
  "is_line_terminator c = ((of_char c :: nat) = 10 \<or> (of_char c :: nat) = 13)"

definition trim :: "string \<Rightarrow> string" where
  "trim s = rev (dropWhile is_space (rev (dropWhile is_space s)))"

text \<open>\<^verbatim>\<open>s.includes(pat)\<close>: \<open>pat\<close> occurs in \<open>s\<close> as a contiguous substring.\<close>

fun includes_str :: "string \<Rightarrow> string \<Rightarrow> bool" where
  "includes_str [] pat = (pat = [])"
| "includes_str (c # cs) pat = (prefix pat (c # cs) \<or> includes_str cs pat)"

text \<open>\<^verbatim>\<open>s.replace(pat, rep)\<close> with a string pattern: the first occurrence only.\<close>

fun replace :: "string \<Rightarrow> string \<Rightarrow> string \<Rightarrow> string" where
  "replace [] pat rep = (if pat = [] then rep else [])"
| "replace (c # cs) pat rep =
     (if prefix pat (c # cs) then rep @ drop (length pat) (c # cs)
      else c # replace cs pat rep)"

subsection \<open>The command patterns\<close>

text \<open>
  Both command patterns have the shape \<^verbatim>\<open>/<keyword>\s+(.+)/i\<close>. \<open>dot_plus\<close> is the
  group \<^verbatim>\<open>(.+)\<close> anchored at the start of its input: the longest run of characters
  that are not line terminators, at least one. \<open>ws_plus_dot k s\<close> lets \<^verbatim>\<open>\s+\<close> take
  \<open>k\<close> characters and backtracks to fewer, as the greedy quantifier does.
  \<open>regex_match kw text\<close> is group 1 of the leftmost match, or \<open>None\<close> when
  \<^verbatim>\<open>test\<close> is false.
\<close>

definition dot_plus :: "string \<Rightarrow> string option" where
  "dot_plus s =
     (let g = takeWhile (\<lambda>c. \<not> is_line_terminator c) s
      in if g = [] then None else Some g)"

fun ws_plus_dot :: "nat \<Rightarrow> string \<Rightarrow> string option" where
  "ws_plus_dot 0 s = None"
| "ws_plus_dot (Suc k) s =
     (case dot_plus (drop (Suc k) s) of
        Some g \<Rightarrow> Some g
      | None \<Rightarrow> ws_plus_dot k s)"

definition match_here :: "string \<Rightarrow> string \<Rightarrow> string option" where
  "match_here kw s =
     (if toLowerCase (take (length kw) s) = kw
      then (let rest = drop (length kw) s
            in ws_plus_dot (length (takeWhile is_space rest)) rest)
      else None)"

fun regex_match :: "string \<Rightarrow> string \<Rightarrow> string option" where
  "regex_match kw [] = match_here kw []"
| "regex_match kw (c # cs) =
     (case match_here kw (c # cs) of
        Some g \<Rightarrow> Some g
      | None \<Rightarrow> regex_match kw cs)"

subsection \<open>Fixed texts\<close>

definition em_dash :: string where
  "em_dash = [CHR 0xE2, CHR 0x80, CHR 0x94]"

definition check_mark :: string where
  "check_mark = [CHR 0xE2, CHR 0x9C, CHR 0x85]"

definition cross_mark :: string where
  "cross_mark = [CHR 0xE2, CHR 0x9D, CHR 0x8C]"

definition signature :: string where
  "signature = em_dash @ '' MyAI''"

definition metaPrompt :: string where
  "metaPrompt =
     ''You are a prompt engineer. Generate a detailed system prompt for an AI character based on the user's description. The prompt should:''
     @ [CHR 0x0A] @ ''1. Define the character's personality, mannerisms, and speaking style''
     @ [CHR 0x0A] @ ''2. Include specific behavioral traits and quirks''
     @ [CHR 0x0A] @ ''3. Be detailed enough to create a consistent character persona''
     @ [CHR 0x0A] @ ''4. Start with '' @ [CHR 0x22] @ ''You are [character description]...'' @ [CHR 0x22]
     @ [CHR 0x0A, CHR 0x0A]
     @ ''Keep it concise but comprehensive. Return only the system prompt, nothing else.''"

definition fallbackPrompt :: "string \<Rightarrow> string" where
  "fallbackPrompt description =
     ''You are '' @ description @ ''. Embody this character fully in your responses.''"

definition characterUpdated :: "string \<Rightarrow> string" where
  "characterUpdated description =
     check_mark @ '' Character updated! I'm now: '' @ description @ '' '' @ signature"

definition defaultPrompt :: string where
  "defaultPrompt =
     ''You are MyAI, a casual assistant in a private friend group chat. Be brief and natural unless asked to elaborate. Match the group's tone and energy.''"

definition ollamaInstruction :: string where
  "ollamaInstruction =
     '' If you want to generate and send a picture, just say [REQUEST_PICTURE] followed by your description.''"

definition openaiInstruction :: string where
  "openaiInstruction =
     '' If you want to generate and send a picture or image, use the request_picture tool with a detailed description of what image you want to create.''"

definition sentinel :: string where
  "sentinel = ''[REQUEST_PICTURE]''"

definition pictureSent :: string where
  "pictureSent = check_mark @ '' Generated and sent a picture! '' @ signature"

definition pictureFailed :: string where
  "pictureFailed = cross_mark @ '' Failed to generate image. Please try again. '' @ signature"

definition errorReply :: string where
  "errorReply = cross_mark @ '' Error processing message. Please try again. '' @ signature"

section \<open>Data model\<close>

datatype role = System | User | Assistant

datatype turn = Turn (role: role) (content: string)

text \<open>
  The \<^verbatim>\<open>arguments\<close> of a tool call is JSON text. \<open>BadJson\<close> is text on which
  \<^verbatim>\<open>JSON.parse\<close> throws; \<open>JsonArgs d\<close> parses to an object whose
  \<^verbatim>\<open>description\<close> property is \<open>d\<close> (\<open>None\<close> when it is absent).
  \<^verbatim>\<open>JSON.parse(JSON.stringify({ description }))\<close> gives the description back, so the
  call synthesised for the local backend carries \<open>JsonArgs (Some description)\<close>.
\<close>

datatype tool_arguments = BadJson | JsonArgs "string option"

datatype tool_call = ToolCall (name: string) (arguments: tool_arguments)

text \<open>\<^verbatim>\<open>completion.choices[0].message\<close>: a content that may be null, and tool calls
  that may be null.\<close>

datatype response = Response (resp_content: "string option") (tool_calls: "tool_call list option")

datatype error = BridgeError | BackendError | JsonError

record queue_item =
  chatGuid :: string
  item_text :: string

record message =
  guid :: string
  dateCreated :: nat
  dateDelivered :: nat
  msg_text :: "string option"

text \<open>
  Every call that leaves the process is recorded, in order. Idempotency tokens
  (\<^verbatim>\<open>tempGuid\<close>), model names and credentials are left out of the record. The bool of
  \<open>OpenAI_chat\<close> says whether the \<^verbatim>\<open>request_picture\<close> tool is offered.
\<close>

datatype event =
    OpenAI_chat "turn list" bool
  | Ollama_chat "turn list"
  | Images_generate "string option"
  | Http_get string
  | BB_attachment string string
  | BB_text string string
  | BB_chat_query
  | BB_message_query string
  | Delay nat

text \<open>
  The outside world. Each oracle is given the number of calls made so far, so the same
  request may be answered differently at different times. \<open>None\<close> (for the bridge's
  send operations: \<open>False\<close>) stands for every way the awaited call can throw, a
  malformed answer included.
\<close>

record env =
  BOT_TRIGGER :: "string option"
  openai_chat :: "nat \<Rightarrow> turn list \<Rightarrow> bool \<Rightarrow> response option"
  ollama_chat :: "nat \<Rightarrow> turn list \<Rightarrow> string option"
  images_generate :: "nat \<Rightarrow> string option \<Rightarrow> string option"
  http_get :: "nat \<Rightarrow> string \<Rightarrow> string option"
  bb_attachment :: "nat \<Rightarrow> string \<Rightarrow> string \<Rightarrow> bool"
  bb_text :: "nat \<Rightarrow> string \<Rightarrow> string \<Rightarrow> bool"
  bb_chat_query :: "nat \<Rightarrow> string list option"
  bb_message_query :: "nat \<Rightarrow> string \<Rightarrow> message list option"

text \<open>
  The module-level variables, together with the locals of \<^verbatim>\<open>pollMessages\<close> that
  live as long as the process (\<open>seen\<close>, \<open>chatContexts\<close>, \<open>processedMessages\<close>,
  \<open>startupTime\<close>). A JavaScript \<^verbatim>\<open>Set\<close> iterates in insertion order: a ledger is the
  list of its members, oldest first. \<open>chatContexts\<close> is a \<^verbatim>\<open>Map\<close>, also in insertion
  order: an association list.
\<close>

record state =
  USE_OLLAMA :: bool
  messageQueue :: "queue_item list"
  isProcessingQueue :: bool
  chatCharacters :: "string \<rightharpoonup> string"
  chatContexts :: "(string \<times> turn list) list"
  seen :: "string list"
  processedMessages :: "string list"
  startupTime :: nat
  trace :: "event list"

definition clock :: "state \<Rightarrow> nat" where
  "clock s = length (trace s)"

definition emit :: "event \<Rightarrow> state \<Rightarrow> state" where
  "emit ev s = s\<lparr>trace := trace s @ [ev]\<rparr>"

definition TRIGGER :: "env \<Rightarrow> string" where
  "TRIGGER e = toLowerCase (case BOT_TRIGGER e of None \<Rightarrow> ''@ava'' | Some t \<Rightarrow> t)"

definition TRIGGERS :: "env \<Rightarrow> string list" where
  "TRIGGERS e = [TRIGGER e, ''@character'', ''@unhinge'']"

definition get_context :: "state \<Rightarrow> string \<Rightarrow> turn list" where
  "get_context s cg = (case map_of (chatContexts s) cg of None \<Rightarrow> [] | Some c \<Rightarrow> c)"

definition set_context :: "string \<Rightarrow> turn list \<Rightarrow> state \<Rightarrow> state" where
  "set_context cg c s = s\<lparr>chatContexts := AList.update cg c (chatContexts s)\<rparr>"

section \<open>The command interpreter\<close>

definition generateCharacterPrompt :: "env \<Rightarrow> state \<Rightarrow> string \<Rightarrow> state \<times> string" where
  "generateCharacterPrompt e s description =
     (let messages = [Turn System metaPrompt, Turn User description]
      in if USE_OLLAMA s then
           (case ollama_chat e (clock s) messages of
              Some completion \<Rightarrow> (emit (Ollama_chat messages) s, trim completion)
            | None \<Rightarrow> (emit (Ollama_chat messages) s, fallbackPrompt description))
         else
           (case openai_chat e (clock s) messages False of
              Some r \<Rightarrow>
                (case resp_content r of
                   Some completion \<Rightarrow> (emit (OpenAI_chat messages False) s, trim completion)
                 | None \<Rightarrow> (emit (OpenAI_chat messages False) s, fallbackPrompt description))
            | None \<Rightarrow> (emit (OpenAI_chat messages False) s, fallbackPrompt description)))"

text \<open>
  \<open>parseCommand\<close> is given the chat's context array by reference; the model names it by
  its key. \<open>Inl\<close> is the exception of the confirmation's \<^verbatim>\<open>axios.post\<close>, which
  \<open>parseCommand\<close> does not catch.
\<close>

definition parseCommand :: "env \<Rightarrow> state \<Rightarrow> string \<Rightarrow> string \<Rightarrow> state \<times> (error + bool)" where
  "parseCommand e s txt cg =
     (case regex_match ''@character'' txt of
        Some g \<Rightarrow>
          (let description = trim g;
               (s1, characterPrompt) = generateCharacterPrompt e s description;
               s2 = s1\<lparr>chatCharacters := (chatCharacters s1)(cg \<mapsto> characterPrompt)\<rparr>;
               s3 = set_context cg [] s2;
               s4 = emit (BB_text cg (characterUpdated description)) s3
           in if bb_text e (clock s3) cg (characterUpdated description)
              then (s4, Inr True) else (s4, Inl BridgeError))
      | None \<Rightarrow>
          (case regex_match ''@unhinge'' txt of
             Some val \<Rightarrow> (s\<lparr>USE_OLLAMA := (toLowerCase (trim val) = ''true'')\<rparr>, Inr True)
           | None \<Rightarrow> (s, Inr False)))"

section \<open>Image generation and delivery\<close>

definition generateAndSendPicture :: "env \<Rightarrow> state \<Rightarrow> string \<Rightarrow> string option \<Rightarrow> state \<times> bool" where
  "generateAndSendPicture e s cg description =
     (let s1 = emit (Images_generate description) s
      in case images_generate e (clock s) description of
           None \<Rightarrow> (s1, False)
         | Some imageUrl \<Rightarrow>
             (let s2 = emit (Http_get imageUrl) s1
              in case http_get e (clock s1) imageUrl of
                   None \<Rightarrow> (s2, False)
                 | Some imageData \<Rightarrow>
                     (emit (BB_attachment cg imageData) s2,
                      bb_attachment e (clock s2) cg imageData)))"

section \<open>The processing queue\<close>

text \<open>The loop over \<^verbatim>\<open>response.tool_calls\<close>; \<open>Inl\<close> is the exception of
  \<^verbatim>\<open>JSON.parse\<close>.\<close>

fun tool_calls_loop ::
    "env \<Rightarrow> state \<Rightarrow> string \<Rightarrow> string \<Rightarrow> tool_call list \<Rightarrow> state \<times> (error + string)" where
  "tool_calls_loop e s cg reply [] = (s, Inr reply)"
| "tool_calls_loop e s cg reply (toolCall # rest) =
     (if name toolCall = ''request_picture'' then
        (case arguments toolCall of
           BadJson \<Rightarrow> (s, Inl JsonError)
         | JsonArgs description \<Rightarrow>
             (case generateAndSendPicture e s cg description of
                (s1, success) \<Rightarrow>
                  tool_calls_loop e s1 cg (if success then pictureSent else pictureFailed) rest))
      else tool_calls_loop e s cg reply rest)"

text \<open>Lines 166 and 167: the chat's override, or the default persona when there is
  none or it is the empty string.\<close>

definition persona :: "state \<Rightarrow> string \<Rightarrow> string" where
  "persona s cg =
     (case chatCharacters s cg of
        None \<Rightarrow> defaultPrompt
      | Some p \<Rightarrow> if p = [] then defaultPrompt else p)"

text \<open>The request to the selected backend, lines 164 to 239: the state after the call
  and the uniform \<^verbatim>\<open>completion.choices[0].message\<close>.\<close>

definition complete :: "env \<Rightarrow> state \<Rightarrow> string \<Rightarrow> turn list \<Rightarrow> state \<times> (error + response)" where
  "complete e s cg context =
     (if USE_OLLAMA s then
        (let messages = Turn System (persona s cg @ ollamaInstruction) # context
         in case ollama_chat e (clock s) messages of
              None \<Rightarrow> (emit (Ollama_chat messages) s, Inl BackendError)
            | Some c \<Rightarrow>
                (emit (Ollama_chat messages) s,
                 Inr (Response (Some c)
                       (if includes_str c sentinel
                        then Some [ToolCall ''request_picture''
                                     (JsonArgs (Some (trim (replace c sentinel []))))]
                        else None))))
      else
        (let messages = Turn System (persona s cg @ openaiInstruction) # context
         in case openai_chat e (clock s) messages True of
              None \<Rightarrow> (emit (OpenAI_chat messages True) s, Inl BackendError)
            | Some r \<Rightarrow> (emit (OpenAI_chat messages True) s, Inr r)))"

text \<open>Line 262: the text handed to the bridge, the reply with the signature appended
  unless the reply contains the signature already.\<close>

definition signed :: "string \<Rightarrow> string" where
  "signed reply = (if includes_str reply signature then reply else reply @ '' '' @ signature)"

text \<open>Lines 241 to 256: the final reply. It is the trimmed content of the backend's
  message (the empty string when there is none), unless a \<^verbatim>\<open>request_picture\<close> call
  replaces it with a confirmation; \<open>Inl\<close> is the exception of \<^verbatim>\<open>JSON.parse\<close>.\<close>

definition resolve_reply :: "env \<Rightarrow> state \<Rightarrow> string \<Rightarrow> response \<Rightarrow> state \<times> (error + string)" where
  "resolve_reply e s cg response =
     (let reply = (case resp_content response of None \<Rightarrow> [] | Some c \<Rightarrow> trim c)
      in case tool_calls response of
           None \<Rightarrow> (s, Inr reply)
         | Some tcs \<Rightarrow> tool_calls_loop e s cg reply tcs)"

text \<open>Lines 241 to 268: from the backend's message to the delivery of the reply.\<close>

definition deliver :: "env \<Rightarrow> state \<Rightarrow> string \<Rightarrow> turn list \<Rightarrow> response \<Rightarrow> state \<times> (error + bool)" where
  "deliver e s cg context response =
     (case resolve_reply e s cg response of
        (s1, Inl err) \<Rightarrow> (s1, Inl err)
      | (s1, Inr reply) \<Rightarrow>
          (let s2 = set_context cg (context @ [Turn Assistant reply]) s1
           in if bb_text e (clock s2) cg (signed reply)
              then (emit (BB_text cg (signed reply)) s2, Inr False)
              else (emit (BB_text cg (signed reply)) s2, Inl BridgeError)))"

text \<open>Lines 160 to 162: \<^verbatim>\<open>context.splice(0, context.length - 10)\<close> when the length is
  above 10.\<close>

definition splice_oldest :: "turn list \<Rightarrow> turn list" where
  "splice_oldest context =
     (if length context > 10 then drop (length context - 10) context else context)"

text \<open>
  The body of the \<^verbatim>\<open>try\<close> block for one item. \<open>Inr True\<close> is the \<^verbatim>\<open>continue\<close> of a
  handled command, \<open>Inr False\<close> is reaching the end of the block, \<open>Inl\<close> is an
  exception on its way to the \<^verbatim>\<open>catch\<close>.
\<close>

definition process_item :: "env \<Rightarrow> state \<Rightarrow> queue_item \<Rightarrow> state \<times> (error + bool)" where
  "process_item e s item =
     (let cg = chatGuid item;
          s0 = (if map_of (chatContexts s) cg = None then set_context cg [] s else s)
      in case parseCommand e s0 (item_text item) cg of
           (s1, Inl err) \<Rightarrow> (s1, Inl err)
         | (s1, Inr True) \<Rightarrow> (s1, Inr True)
         | (s1, Inr False) \<Rightarrow>
             (let context = splice_oldest (get_context s1 cg @ [Turn User (item_text item)]);
                  s2 = set_context cg context s1
              in case complete e s2 cg context of
                   (s3, Inl err) \<Rightarrow> (s3, Inl err)
                 | (s3, Inr response) \<Rightarrow> deliver e s3 cg context response))"

text \<open>
  One iteration of the \<^verbatim>\<open>while\<close> loop after the \<^verbatim>\<open>shift\<close>: the \<^verbatim>\<open>try\<close> block, the
  \<^verbatim>\<open>catch\<close> block and the pacing delay. A handled command leaves through
  \<^verbatim>\<open>continue\<close>, which goes back to the loop's test and passes over line 283. The
  second component is \<open>Some err\<close> when the \<^verbatim>\<open>axios.post\<close> of the \<^verbatim>\<open>catch\<close> block
  throws: nothing catches that, and it leaves \<open>processMessageQueue\<close>.
\<close>

definition loop_iteration :: "env \<Rightarrow> state \<Rightarrow> queue_item \<Rightarrow> state \<times> error option" where
  "loop_iteration e s item =
     (case process_item e s item of
        (s1, Inr True) \<Rightarrow> (s1, None)
      | (s1, Inr False) \<Rightarrow> (emit (Delay 500) s1, None)
      | (s1, Inl err) \<Rightarrow>
          (if bb_text e (clock s1) (chatGuid item) errorReply
           then (emit (Delay 500) (emit (BB_text (chatGuid item) errorReply) s1), None)
           else (emit (BB_text (chatGuid item) errorReply) s1, Some BridgeError)))"

text \<open>
  The \<^verbatim>\<open>while\<close> loop of \<open>processMessageQueue\<close> and the release of the guard after it.
  The drain runs on the queue as it stands; an asynchronous function is run to
  completion where it is called.
\<close>

function drain_loop :: "env \<Rightarrow> state \<Rightarrow> state \<times> error option" where
  "drain_loop e s =
     (case messageQueue s of
        [] \<Rightarrow> (s\<lparr>isProcessingQueue := False\<rparr>, None)
      | item # rest \<Rightarrow>
          (case loop_iteration e (s\<lparr>messageQueue := rest\<rparr>) item of
             (s1, None) \<Rightarrow> drain_loop e s1
           | (s1, Some err) \<Rightarrow> (s1, Some err)))"
  by pat_completeness auto
termination
proof (relation "measure (\<lambda>(e, s). length (messageQueue s))")
  have q_emit: "messageQueue (emit ev s) = messageQueue s" for ev s
    by (simp add: emit_def)
  have q_ctx: "messageQueue (set_context cg c s) = messageQueue s" for cg c s
    by (simp add: set_context_def)
  have q_gen: "messageQueue s1 = messageQueue s"
    if "generateCharacterPrompt e s d = (s1, p)" for e s d s1 p
    using that
    by (auto simp: generateCharacterPrompt_def Let_def q_emit split: option.splits if_splits)
  have q_parse: "messageQueue s1 = messageQueue s"
    if "parseCommand e s t cg = (s1, r)" for e s t cg s1 r
    using that
    by (auto simp: parseCommand_def Let_def q_emit q_ctx
          split: option.splits prod.splits if_splits dest: q_gen)
  have q_pic: "messageQueue s1 = messageQueue s"
    if "generateAndSendPicture e s cg d = (s1, ok)" for e s cg d s1 ok
    using that
    by (auto simp: generateAndSendPicture_def Let_def q_emit split: option.splits)
  have q_tools: "messageQueue s1 = messageQueue s"
    if "tool_calls_loop e s cg r tcs = (s1, res)" for e s cg r tcs s1 res
    using that
  proof (induction tcs arbitrary: s r)
    case Nil
    then show ?case by simp
  next
    case (Cons tc tcs)
    then show ?case
      by (auto split: if_splits tool_arguments.splits prod.splits dest: q_pic)
  qed
  have q_complete: "messageQueue s1 = messageQueue s"
    if "complete e s cg c = (s1, res)" for e s cg c s1 res
    using that
    by (auto simp: complete_def Let_def q_emit split: option.splits if_splits)
  have q_deliver: "messageQueue s1 = messageQueue s"
    if "deliver e s cg c r = (s1, res)" for e s cg c r s1 res
    using that
    by (auto simp: deliver_def resolve_reply_def Let_def q_emit q_ctx
          split: option.splits prod.splits sum.splits if_splits dest: q_tools)
  have q_item: "messageQueue s1 = messageQueue s"
    if "process_item e s item = (s1, res)" for e s item s1 res
    using that
    by (auto simp: process_item_def Let_def q_ctx
          split: prod.splits sum.splits if_splits bool.splits
          dest!: q_parse q_complete q_deliver)
  show "wf (measure (\<lambda>(e, s). length (messageQueue s)))"
    by simp
  have q_iter: "messageQueue s1 = messageQueue s"
    if "loop_iteration e s item = (s1, res)" for e s item s1 res
    using that
    by (auto simp: loop_iteration_def q_emit
          split: prod.splits sum.splits if_splits bool.splits dest!: q_item)
  show "((e, s1), e, s) \<in> measure (\<lambda>(e, s). length (messageQueue s))"
    if "messageQueue s = item # rest"
      and "(s1, r) = loop_iteration e (s\<lparr>messageQueue := rest\<rparr>) item"
    for e s item rest s1 r
    using that q_iter [of e "s\<lparr>messageQueue := rest\<rparr>" item s1 r] by simp
qed

text \<open>\<open>processMessageQueue\<close>: the reentrancy guard around the loop.\<close>

definition processMessageQueue :: "env \<Rightarrow> state \<Rightarrow> state \<times> error option" where
  "processMessageQueue e s =
     (if isProcessingQueue s \<or> messageQueue s = [] then (s, None)
      else drain_loop e (s\<lparr>isProcessingQueue := True\<rparr>))"

section \<open>The poller\<close>

text \<open>
  \<open>queueMessageProcessing\<close> pushes the item and calls \<open>processMessageQueue\<close> without
  awaiting it: an exception leaving the drain is an unhandled rejection and does not
  reach the poller.
\<close>

definition queueMessageProcessing :: "env \<Rightarrow> state \<Rightarrow> string \<Rightarrow> string \<Rightarrow> state" where
  "queueMessageProcessing e s cg t =
     fst (processMessageQueue e
            (s\<lparr>messageQueue := messageQueue s @ [\<lparr>chatGuid = cg, item_text = t\<rparr>]\<rparr>))"

definition containsTrigger :: "env \<Rightarrow> string \<Rightarrow> bool" where
  "containsTrigger e t =
     list_ex (\<lambda>trigger. includes_str (toLowerCase t) (toLowerCase trigger)) (TRIGGERS e)"

text \<open>Line 371: \<^verbatim>\<open>msg.dateCreated || msg.dateDelivered || 0\<close>; an absent date is 0.\<close>

definition messageTime :: "message \<Rightarrow> nat" where
  "messageTime msg = (if dateCreated msg \<noteq> 0 then dateCreated msg else dateDelivered msg)"

text \<open>The body of the loop over one chat's messages, lines 367 to 386. An absent
  \<^verbatim>\<open>guid\<close> is the empty string.\<close>

definition poll_message :: "env \<Rightarrow> string \<Rightarrow> state \<Rightarrow> message \<Rightarrow> state" where
  "poll_message e chat_guid s msg =
     (if guid msg = [] \<or> guid msg \<in> set (seen s) then s
      else
        (let s1 = s\<lparr>seen := seen s @ [guid msg]\<rparr>
         in if messageTime msg < startupTime s1 then s1
            else
              (let t = (case msg_text msg of None \<Rightarrow> [] | Some t \<Rightarrow> t)
               in if containsTrigger e t \<and> guid msg \<notin> set (processedMessages s1)
                  then queueMessageProcessing e
                         (s1\<lparr>processedMessages := processedMessages s1 @ [guid msg]\<rparr>)
                         chat_guid t
                  else s1)))"

text \<open>The loop over the chats; \<open>Some err\<close> is the exception of a message query, on its
  way to the \<^verbatim>\<open>catch\<close> of the tick.\<close>

fun poll_chats :: "env \<Rightarrow> state \<Rightarrow> string list \<Rightarrow> state \<times> error option" where
  "poll_chats e s [] = (s, None)"
| "poll_chats e s (chat_guid # chats) =
     (case bb_message_query e (clock s) chat_guid of
        None \<Rightarrow> (emit (BB_message_query chat_guid) s, Some BridgeError)
      | Some messages \<Rightarrow>
          poll_chats e
            (foldl (poll_message e chat_guid) (emit (BB_message_query chat_guid) s) (rev messages))
            chats)"

text \<open>\<^verbatim>\<open>Array.from(set).slice(-500)\<close>, then clear and add again, when the size is above
  1000.\<close>

definition prune_ledger :: "string list \<Rightarrow> string list" where
  "prune_ledger l = (if length l > 1000 then drop (length l - 500) l else l)"

definition prune_contexts :: "(string \<times> turn list) list \<Rightarrow> (string \<times> turn list) list" where
  "prune_contexts cs = (if length cs > 20 then drop (length cs - 20) cs else cs)"

text \<open>One run of the \<^verbatim>\<open>setInterval\<close> callback.\<close>

definition poll_tick :: "env \<Rightarrow> state \<Rightarrow> state" where
  "poll_tick e s =
     (case bb_chat_query e (clock s) of
        None \<Rightarrow> emit BB_chat_query s
      | Some chats \<Rightarrow>
          (case poll_chats e (emit BB_chat_query s) chats of
             (s1, Some err) \<Rightarrow> s1
           | (s1, None) \<Rightarrow>
               s1\<lparr>seen := prune_ledger (seen s1),
                  processedMessages := prune_ledger (processedMessages s1),
                  chatContexts := prune_contexts (chatContexts s1)\<rparr>))"

section \<open>Reading the record of calls\<close>

text \<open>The events that the processing of an item of chat \<open>cg\<close> can cause: requests to
  the backends, the image download, and sends to the bridge for that chat. The pacing
  delay and the poller's queries are not among them.\<close>

fun item_event :: "string \<Rightarrow> event \<Rightarrow> bool" where
  "item_event cg (BB_text c m) = (c = cg)"
| "item_event cg (BB_attachment c b) = (c = cg)"
| "item_event cg (Delay n) = False"
| "item_event cg BB_chat_query = False"
| "item_event cg (BB_message_query c) = False"
| "item_event cg ev = True"

text \<open>A message is a command when one of the two patterns matches it.\<close>

definition is_command :: "string \<Rightarrow> bool" where
  "is_command t = (regex_match ''@character'' t \<noteq> None \<or> regex_match ''@unhinge'' t \<noteq> None)"

text \<open>Events that end with the pacing delay and hold, before it, only events of an
  item of chat \<open>cg\<close>.\<close>

definition paced :: "string \<Rightarrow> event list \<Rightarrow> bool" where
  "paced cg evs =
     (evs \<noteq> [] \<and> last evs = Delay 500 \<and> list_all (item_event cg) (butlast evs))"

text \<open>A request to a chat backend whose last turn is the user turn \<open>t\<close>; a text sent to
  the bridge for chat \<open>cg\<close>.\<close>

fun request_for :: "string \<Rightarrow> event \<Rightarrow> bool" where
  "request_for t (Ollama_chat ms) = (ms \<noteq> [] \<and> last ms = Turn User t)"
| "request_for t (OpenAI_chat ms tools) = (ms \<noteq> [] \<and> last ms = Turn User t)"
| "request_for t ev = False"

fun reply_to :: "string \<Rightarrow> event \<Rightarrow> bool" where
  "reply_to cg (BB_text c m) = (c = cg)"
| "reply_to cg ev = False"

text \<open>
  What one iteration of the drain loop records for its item. For an @character command
  with description \<open>d\<close>: the synthesis request for \<open>d\<close> and the confirmation for the
  chat, and, when the bridge refused the confirmation, the failure reply and the delay.
  For an @unhinge command: nothing. For any other message \<open>t\<close>: first the backend
  request that ends with the user turn \<open>t\<close>, then events of that chat only, the last of
  them a text sent to the chat (the reply or the failure reply), then the delay.
\<close>

fun character_segment :: "string \<Rightarrow> string \<Rightarrow> event list \<Rightarrow> bool" where
  "character_segment cg d [req, conf] =
     (request_for d req \<and> conf = BB_text cg (characterUpdated d))"
| "character_segment cg d [req, conf, err, dl] =
     (request_for d req \<and> conf = BB_text cg (characterUpdated d) \<and>
      err = BB_text cg errorReply \<and> dl = Delay 500)"
| "character_segment cg d evs = False"

definition message_segment :: "string \<Rightarrow> string \<Rightarrow> event list \<Rightarrow> bool" where
  "message_segment cg t evs =
     (3 \<le> length evs \<and> request_for t (hd evs) \<and> last evs = Delay 500 \<and>
      reply_to cg (last (butlast evs)) \<and> list_all (item_event cg) (butlast evs))"

definition iteration_events :: "queue_item \<Rightarrow> event list \<Rightarrow> bool" where
  "iteration_events it evs =
     (case regex_match ''@character'' (item_text it) of
        Some g \<Rightarrow> character_segment (chatGuid it) (trim g) evs
      | None \<Rightarrow>
          (case regex_match ''@unhinge'' (item_text it) of
             Some v \<Rightarrow> evs = []
           | None \<Rightarrow> message_segment (chatGuid it) (item_text it) evs))"

text \<open>
  The drain in the spec's words: the items are taken one after the other in the order
  of the list, each iteration finished before the next begins; an exception that
  leaves an iteration ends the drain.
\<close>

fun in_queue_order :: "env \<Rightarrow> state \<Rightarrow> queue_item list \<Rightarrow> state \<times> error option" where
  "in_queue_order e s [] = (s, None)"
| "in_queue_order e s (it # rest) =
     (case loop_iteration e (s\<lparr>messageQueue := rest\<rparr>) it of
        (s1, None) \<Rightarrow> in_queue_order e s1 rest
      | (s1, Some err) \<Rightarrow> (s1, Some err))"

text \<open>An image-delivery attempt starts with the request to the image backend.\<close>

fun is_image_request :: "event \<Rightarrow> bool" where
  "is_image_request (Images_generate d) = True"
| "is_image_request ev = False"

text \<open>
  A structural tool call of the hosted backend, in the spec's words: a message, with
  whatever content, that carries one invocation of \<^verbatim>\<open>request_picture\<close> with a description.
\<close>

definition structural_tool_call :: "string option \<Rightarrow> string \<Rightarrow> response" where
  "structural_tool_call c description =
     Response c (Some [ToolCall ''request_picture'' (JsonArgs (Some description))])"

section \<open>Concrete worlds and states\<close>

text \<open>A world whose backends always give the same answer (\<open>None\<close>: the call throws)
  and whose bridge accepts every send or refuses every send.\<close>

definition world :: "response option \<Rightarrow> string option \<Rightarrow> bool \<Rightarrow> env" where
  "world hosted local bridge_up =
     \<lparr>BOT_TRIGGER = None,
      openai_chat = (\<lambda>n ms tools. hosted),
      ollama_chat = (\<lambda>n ms. local),
      images_generate = (\<lambda>n d. Some ''https://img''),
      http_get = (\<lambda>n u. Some ''PNG''),
      bb_attachment = (\<lambda>n cg b. bridge_up),
      bb_text = (\<lambda>n cg m. bridge_up),
      bb_chat_query = (\<lambda>n. if bridge_up then Some [] else None),
      bb_message_query = (\<lambda>n cg. if bridge_up then Some [] else None)\<rparr>"

text \<open>The state of the process when \<^verbatim>\<open>pollMessages\<close> starts.\<close>

definition boot :: state where
  "boot =
     \<lparr>USE_OLLAMA = False, messageQueue = [], isProcessingQueue = False,
      chatCharacters = Map.empty, chatContexts = [], seen = [], processedMessages = [],
      startupTime = 0, trace = []\<rparr>"

definition item :: "string \<Rightarrow> string \<Rightarrow> queue_item" where
  "item cg t = \<lparr>chatGuid = cg, item_text = t\<rparr>"

text \<open>A ledger of \<open>n\<close> message identifiers, all different.\<close>

definition ledger_of :: "nat \<Rightarrow> string list" where
  "ledger_of n = map (\<lambda>k. replicate (Suc k) (CHR ''x'')) [0..<n]"

text \<open>A bridge that lists two chats, answers the message query of the first with one
  new message, and fails the message query of the second.\<close>

definition failing_bridge :: env where
  "failing_bridge =
     (world None None True)
       \<lparr>bb_chat_query := (\<lambda>n. Some [''chat1'', ''chat2'']),
        bb_message_query :=
          (\<lambda>n cg. if cg = ''chat1''
                   then Some [\<lparr>guid = ''new'', dateCreated = 1, dateDelivered = 0,
                               msg_text = Some ''hello''\<rparr>]
                   else None)\<rparr>"

section \<open>Basic facts\<close>

lemma emit_fields [simp]:
  "trace (emit ev s) = trace s @ [ev]"
  "USE_OLLAMA (emit ev s) = USE_OLLAMA s"
  "messageQueue (emit ev s) = messageQueue s"
  "isProcessingQueue (emit ev s) = isProcessingQueue s"
  "chatCharacters (emit ev s) = chatCharacters s"
  "chatContexts (emit ev s) = chatContexts s"
  "seen (emit ev s) = seen s"
  "processedMessages (emit ev s) = processedMessages s"
  "startupTime (emit ev s) = startupTime s"
  by (simp_all add: emit_def)

lemma set_context_fields [simp]:
  "trace (set_context cg c s) = trace s"
  "USE_OLLAMA (set_context cg c s) = USE_OLLAMA s"
  "messageQueue (set_context cg c s) = messageQueue s"
  "isProcessingQueue (set_context cg c s) = isProcessingQueue s"
  "chatCharacters (set_context cg c s) = chatCharacters s"
  "chatContexts (set_context cg c s) = AList.update cg c (chatContexts s)"
  "seen (set_context cg c s) = seen s"
  "processedMessages (set_context cg c s) = processedMessages s"
  "startupTime (set_context cg c s) = startupTime s"
  by (simp_all add: set_context_def)

lemma clock_emit [simp]: "clock (emit ev s) = Suc (clock s)"
  by (simp add: clock_def)

lemma clock_set_context [simp]: "clock (set_context cg c s) = clock s"
  by (simp add: clock_def)

lemma clock_update [simp]:
  "clock (s\<lparr>chatCharacters := m\<rparr>) = clock s"
  "clock (s\<lparr>USE_OLLAMA := b\<rparr>) = clock s"
  "clock (s\<lparr>messageQueue := q\<rparr>) = clock s"
  "clock (s\<lparr>isProcessingQueue := b\<rparr>) = clock s"
  by (simp_all add: clock_def)

lemma get_context_update [simp]:
  "get_context (s\<lparr>chatCharacters := m\<rparr>) cg = get_context s cg"
  "get_context (s\<lparr>USE_OLLAMA := b\<rparr>) cg = get_context s cg"
  "get_context (s\<lparr>messageQueue := q\<rparr>) cg = get_context s cg"
  "get_context (s\<lparr>isProcessingQueue := b\<rparr>) cg = get_context s cg"
  by (simp_all add: get_context_def)

lemma get_context_emit [simp]: "get_context (emit ev s) cg = get_context s cg"
  by (simp add: get_context_def)

lemma get_context_set_context [simp]:
  "get_context (set_context cg c s) cg' = (if cg' = cg then c else get_context s cg')"
  by (simp add: get_context_def update_conv')

text \<open>What \<open>generateCharacterPrompt\<close> does to the state: one request, to the backend
  the flag selects.\<close>

lemma generateCharacterPrompt_state:
  "fst (generateCharacterPrompt e s d) =
     emit (if USE_OLLAMA s then Ollama_chat [Turn System metaPrompt, Turn User d]
           else OpenAI_chat [Turn System metaPrompt, Turn User d] False) s"
  by (simp add: generateCharacterPrompt_def Let_def split: option.split)

text \<open>The @character case of \<open>parseCommand\<close>, written out.\<close>

lemma parseCommand_character:
  assumes "regex_match ''@character'' txt = Some g"
  shows "parseCommand e s txt cg =
           (let d = trim g;
                s1 = fst (generateCharacterPrompt e s d);
                s3 = set_context cg []
                       (s1\<lparr>chatCharacters :=
                             (chatCharacters s1)(cg \<mapsto> snd (generateCharacterPrompt e s d))\<rparr>)
            in (emit (BB_text cg (characterUpdated d)) s3,
                if bb_text e (clock s3) cg (characterUpdated d)
                then Inr True else Inl BridgeError))"
  using assms by (simp add: parseCommand_def Let_def split: prod.split)

lemma parseCommand_unhinge:
  assumes "regex_match ''@character'' txt = None"
    and "regex_match ''@unhinge'' txt = Some val"
  shows "parseCommand e s txt cg =
           (s\<lparr>USE_OLLAMA := (toLowerCase (trim val) = ''true'')\<rparr>, Inr True)"
  using assms by (simp add: parseCommand_def)

lemma parseCommand_default:
  assumes "regex_match ''@character'' txt = None"
    and "regex_match ''@unhinge'' txt = None"
  shows "parseCommand e s txt cg = (s, Inr False)"
  using assms by (simp add: parseCommand_def)

section \<open>The backend that synthesises a persona\<close>

text \<open>
  Claim C1, as the code has it. For every message that the @character pattern matches,
  the interpreter sends the fixed meta-prompt and the description to the backend that
  the process-wide flag selects: to the local backend when the flag is true, to the
  hosted backend (without the picture tool) when it is false. The confirmation to the
  bridge follows.
\<close>

theorem character_persona_backend:
  assumes "regex_match ''@character'' txt = Some g"
  shows "trace (fst (parseCommand e s txt cg)) =
           trace s @ [if USE_OLLAMA s
                      then Ollama_chat [Turn System metaPrompt, Turn User (trim g)]
                      else OpenAI_chat [Turn System metaPrompt, Turn User (trim g)] False,
                      BB_text cg (characterUpdated (trim g))]"
  by (simp add: parseCommand_character [OF assms] Let_def generateCharacterPrompt_state)

theorem character_persona_backend_witness:
  "regex_match ''@character'' ''@character a pirate'' = Some ''a pirate'' \<and>
   trace (fst (parseCommand (world None None True) boot ''@character a pirate'' ''chat1'')) =
     [OpenAI_chat [Turn System metaPrompt, Turn User ''a pirate''] False,
      BB_text ''chat1'' (characterUpdated ''a pirate'')]"
proof -
  have m: "regex_match ''@character'' ''@character a pirate'' = Some ''a pirate''"
    by code_simp
  have t: "trim ''a pirate'' = ''a pirate''"
    by code_simp
  show ?thesis
    using m character_persona_backend [OF m, of "world None None True" boot "''chat1''"]
    by (simp add: t boot_def)
qed

text \<open>
  With the flag set, the persona of \<^verbatim>\<open>@character a pirate\<close> is asked of the local
  backend, and its answer is what the registry stores; no request goes to the hosted
  backend.
\<close>

theorem character_always_hosted_counterexample:
  "trace (fst (parseCommand (world None (Some ''You are a pirate.'') True)
                 (boot\<lparr>USE_OLLAMA := True\<rparr>) ''@character a pirate'' ''chat1'')) =
     [Ollama_chat [Turn System metaPrompt, Turn User ''a pirate''],
      BB_text ''chat1'' (characterUpdated ''a pirate'')] \<and>
   chatCharacters (fst (parseCommand (world None (Some ''You are a pirate.'') True)
                 (boot\<lparr>USE_OLLAMA := True\<rparr>) ''@character a pirate'' ''chat1'')) ''chat1'' =
     Some ''You are a pirate.''"
  by code_simp

section \<open>The fallback persona\<close>

text \<open>
  Claim C5, as the code has it. When the backend that synthesises the persona fails
  (its call throws, or the hosted answer has no content), \<open>generateCharacterPrompt\<close>
  still returns, with the text "You are <description>. Embody this character fully in
  your responses."; the interpreter stores that text for the chat, clears the chat's
  context and sends the confirmation to the bridge; it returns handled when the bridge
  accepts the confirmation, and the exception of that send leaves \<open>parseCommand\<close>
  otherwise.
\<close>

theorem character_fallback:
  assumes "regex_match ''@character'' txt = Some g"
    and "if USE_OLLAMA s
         then ollama_chat e (clock s) [Turn System metaPrompt, Turn User (trim g)] = None
         else (case openai_chat e (clock s) [Turn System metaPrompt, Turn User (trim g)] False of
                 None \<Rightarrow> True
               | Some r \<Rightarrow> resp_content r = None)"
  shows "snd (generateCharacterPrompt e s (trim g)) =
           ''You are '' @ trim g @ ''. Embody this character fully in your responses.'' \<and>
         chatCharacters (fst (parseCommand e s txt cg)) cg =
           Some (''You are '' @ trim g @ ''. Embody this character fully in your responses.'') \<and>
         get_context (fst (parseCommand e s txt cg)) cg = [] \<and>
         last (trace (fst (parseCommand e s txt cg))) = BB_text cg (characterUpdated (trim g)) \<and>
         snd (parseCommand e s txt cg) =
           (if bb_text e (Suc (clock s)) cg (characterUpdated (trim g))
            then Inr True else Inl BridgeError)"
proof -
  have fb: "snd (generateCharacterPrompt e s (trim g)) = fallbackPrompt (trim g)"
  proof (cases "USE_OLLAMA s")
    case True
    then show ?thesis
      using assms(2) by (simp add: generateCharacterPrompt_def Let_def)
  next
    case False
    then show ?thesis
      using assms(2) by (simp add: generateCharacterPrompt_def Let_def split: option.splits)
  qed
  show ?thesis
    by (simp add: parseCommand_character [OF assms(1)] Let_def fb
          generateCharacterPrompt_state fallbackPrompt_def)
qed

theorem character_fallback_witness:
  "regex_match ''@character'' ''@character a pirate'' = Some ''a pirate'' \<and>
   chatCharacters (fst (parseCommand (world None None True) boot
                          ''@character a pirate'' ''chat1'')) ''chat1'' =
     Some ''You are a pirate. Embody this character fully in your responses.'' \<and>
   get_context (fst (parseCommand (world None None True) boot
                       ''@character a pirate'' ''chat1'')) ''chat1'' = [] \<and>
   snd (parseCommand (world None None True) boot ''@character a pirate'' ''chat1'') = Inr True"
proof -
  have m: "regex_match ''@character'' ''@character a pirate'' = Some ''a pirate''"
    by code_simp
  have t: "trim ''a pirate'' = ''a pirate''"
    by code_simp
  have h: "if USE_OLLAMA boot
           then ollama_chat (world None None True) (clock boot)
                  [Turn System metaPrompt, Turn User (trim ''a pirate'')] = None
           else (case openai_chat (world None None True) (clock boot)
                        [Turn System metaPrompt, Turn User (trim ''a pirate'')] False of
                   None \<Rightarrow> True | Some r \<Rightarrow> resp_content r = None)"
    by (simp add: world_def boot_def)
  show ?thesis
    using m character_fallback [OF m h, of "''chat1''"]
    by (simp add: t world_def)
qed

text \<open>
  The persona of \<^verbatim>\<open>@character a pirate\<close> when both backends are down is not the text of
  the claim; and when the bridge is down as well, the command does not return handled:
  the exception of the confirmation leaves the interpreter.
\<close>

theorem character_fallback_text_counterexample:
  "snd (generateCharacterPrompt (world None None True) boot ''a pirate'') \<noteq>
     ''You are a pirate. Embody this character fully.'' \<and>
   snd (generateCharacterPrompt (world None None True) boot ''a pirate'') =
     ''You are a pirate. Embody this character fully in your responses.'' \<and>
   snd (parseCommand (world None None False) boot ''@character a pirate'' ''chat1'') =
     Inl BridgeError"
  by code_simp

section \<open>Frames: what each step changes\<close>

lemma emit_update: "emit ev (s\<lparr>trace := trace s @ evs\<rparr>) = s\<lparr>trace := trace s @ evs @ [ev]\<rparr>"
  by (simp add: emit_def)

lemma picture_frame:
  "\<exists>evs. fst (generateAndSendPicture e s cg d) = s\<lparr>trace := trace s @ evs\<rparr> \<and>
         list_all (item_event cg) evs"
proof (cases "images_generate e (clock s) d")
  case None
  have "emit (Images_generate d) s = s\<lparr>trace := trace s @ [Images_generate d]\<rparr>"
    by (simp add: emit_def)
  then show ?thesis
    using None by (auto simp: generateAndSendPicture_def Let_def intro!: exI [of _ "[Images_generate d]"])
next
  case (Some url)
  show ?thesis
  proof (cases "http_get e (Suc (clock s)) url")
    case None
    have "emit (Http_get url) (emit (Images_generate d) s) =
            s\<lparr>trace := trace s @ [Images_generate d, Http_get url]\<rparr>"
      by (simp add: emit_def)
    then show ?thesis
      using None Some
      by (auto simp: generateAndSendPicture_def Let_def
            intro!: exI [of _ "[Images_generate d, Http_get url]"])
  next
    case (Some bytes)
    have "emit (BB_attachment cg bytes) (emit (Http_get url) (emit (Images_generate d) s)) =
            s\<lparr>trace := trace s @ [Images_generate d, Http_get url, BB_attachment cg bytes]\<rparr>"
      by (simp add: emit_def)
    then show ?thesis
      using Some \<open>images_generate e (clock s) d = Some url\<close>
      by (auto simp: generateAndSendPicture_def Let_def
            intro!: exI [of _ "[Images_generate d, Http_get url, BB_attachment cg bytes]"])
  qed
qed

lemma tools_frame:
  "\<exists>evs. fst (tool_calls_loop e s cg r tcs) = s\<lparr>trace := trace s @ evs\<rparr> \<and>
         list_all (item_event cg) evs"
proof (induction tcs arbitrary: s r)
  case Nil
  show ?case by (auto intro!: exI [of _ "[]"])
next
  case (Cons tc tcs)
  show ?case
  proof (cases "name tc = ''request_picture''")
    case False
    then show ?thesis using Cons.IH [of s r] by simp
  next
    case True
    show ?thesis
    proof (cases "arguments tc")
      case BadJson
      then show ?thesis using True by (auto intro!: exI [of _ "[]"])
    next
      case (JsonArgs d)
      obtain s1 ok where p: "generateAndSendPicture e s cg d = (s1, ok)"
        by (cases "generateAndSendPicture e s cg d")
      obtain evs1 where e1: "s1 = s\<lparr>trace := trace s @ evs1\<rparr>" "list_all (item_event cg) evs1"
        using picture_frame [of e s cg d] p by auto
      obtain evs2 where e2:
        "fst (tool_calls_loop e s1 cg (if ok then pictureSent else pictureFailed) tcs) =
           s1\<lparr>trace := trace s1 @ evs2\<rparr>" "list_all (item_event cg) evs2"
        using Cons.IH [of s1 "if ok then pictureSent else pictureFailed"] by auto
      have "fst (tool_calls_loop e s cg r (tc # tcs)) = s\<lparr>trace := trace s @ (evs1 @ evs2)\<rparr>"
        using True JsonArgs p e1(1) e2(1) by simp
      moreover have "list_all (item_event cg) (evs1 @ evs2)"
        using e1(2) e2(2) by simp
      ultimately show ?thesis by blast
    qed
  qed
qed

lemma tools_error: "snd (tool_calls_loop e s cg r tcs) = Inl err \<Longrightarrow> err = JsonError"
  by (induction tcs arbitrary: s r)
     (auto split: if_splits tool_arguments.splits prod.splits)

lemma complete_state:
  "fst (complete e s cg ctx) =
     emit (if USE_OLLAMA s
           then Ollama_chat (Turn System (persona s cg @ ollamaInstruction) # ctx)
           else OpenAI_chat (Turn System (persona s cg @ openaiInstruction) # ctx) True) s"
  by (simp add: complete_def Let_def split: option.split)

lemma complete_error: "snd (complete e s cg ctx) = Inl err \<Longrightarrow> err = BackendError"
  by (auto simp: complete_def Let_def split: option.splits if_splits)


lemma emit_set_context_update:
  "emit ev (set_context cg c (s\<lparr>trace := trace s @ evs\<rparr>)) =
     set_context cg c s\<lparr>trace := trace s @ evs @ [ev]\<rparr>"
  by (simp add: emit_def set_context_def)

lemma emit_set_context:
  "emit ev (set_context cg c s) = set_context cg c s\<lparr>trace := trace s @ [] @ [ev]\<rparr>"
  by (simp add: emit_def set_context_def)

lemma clock_trace_update: "clock (s\<lparr>trace := trace s @ evs\<rparr>) = clock s + length evs"
  by (simp add: clock_def)

lemma set_context_twice: "set_context cg c (set_context cg c' s) = set_context cg c s"
  by (simp add: set_context_def update_last)

lemma get_context_absent: "map_of (chatContexts s) cg = None \<Longrightarrow> get_context s cg = []"
  by (simp add: get_context_def)

lemma deliver_frame:
  "\<exists>evs. list_all (item_event cg) evs \<and>
     ((snd (deliver e s cg ctx resp) = Inl JsonError \<and>
       fst (deliver e s cg ctx resp) = s\<lparr>trace := trace s @ evs\<rparr>) \<or>
      (\<exists>reply.
         (tool_calls resp = None \<longrightarrow>
            evs = [] \<and> reply = (case resp_content resp of None \<Rightarrow> [] | Some c \<Rightarrow> trim c)) \<and>
         fst (deliver e s cg ctx resp) =
           set_context cg (ctx @ [Turn Assistant reply]) s
             \<lparr>trace := trace s @ evs @ [BB_text cg (signed reply)]\<rparr> \<and>
         snd (deliver e s cg ctx resp) =
           (if bb_text e (clock s + length evs) cg (signed reply)
            then Inr False else Inl BridgeError)))"
proof (cases "tool_calls resp")
  case None
  show ?thesis
    using None
    by (intro exI [of _ "[]"]) (simp add: deliver_def resolve_reply_def Let_def emit_set_context)
next
  case (Some tcs)
  define r0 where "r0 = (case resp_content resp of None \<Rightarrow> [] | Some c \<Rightarrow> trim c)"
  obtain s1 res where t: "tool_calls_loop e s cg r0 tcs = (s1, res)"
    by (cases "tool_calls_loop e s cg r0 tcs")
  obtain evs where ev: "s1 = s\<lparr>trace := trace s @ evs\<rparr>" "list_all (item_event cg) evs"
    using tools_frame [of e s cg r0 tcs] t by auto
  show ?thesis
  proof (cases res)
    case (Inl err)
    then have "err = JsonError"
      using tools_error [of e s cg r0 tcs err] t by simp
    then show ?thesis
      using Some t Inl ev
      by (intro exI [of _ evs]) (simp add: deliver_def resolve_reply_def Let_def r0_def [symmetric])
  next
    case (Inr reply)
    have "fst (deliver e s cg ctx resp) =
            set_context cg (ctx @ [Turn Assistant reply]) s
              \<lparr>trace := trace s @ evs @ [BB_text cg (signed reply)]\<rparr>"
      using Some t Inr ev(1)
      by (simp add: deliver_def resolve_reply_def Let_def r0_def [symmetric] emit_set_context_update)
    moreover have "snd (deliver e s cg ctx resp) =
           (if bb_text e (clock s + length evs) cg (signed reply)
            then Inr False else Inl BridgeError)"
      using Some t Inr ev(1)
      by (simp add: deliver_def resolve_reply_def Let_def r0_def [symmetric] clock_trace_update)
    ultimately show ?thesis
      using Some ev(2) by (intro exI [of _ evs]) auto
  qed
qed

lemma process_item_default:
  assumes "regex_match ''@character'' (item_text it) = None"
    and "regex_match ''@unhinge'' (item_text it) = None"
  shows "process_item e s it =
           (let cg = chatGuid it;
                context = splice_oldest (get_context s cg @ [Turn User (item_text it)]);
                s2 = set_context cg context s
            in case complete e s2 cg context of
                 (s3, Inl err) \<Rightarrow> (s3, Inl err)
               | (s3, Inr response) \<Rightarrow> deliver e s3 cg context response)"
  using assms
  by (simp add: process_item_def Let_def parseCommand_default set_context_twice
        get_context_absent)


lemma get_context_trace_update [simp]:
  "get_context (s\<lparr>trace := t\<rparr>) cg = get_context s cg"
  by (simp add: get_context_def)

lemma signed_fixed: "(signed reply = reply) = includes_str reply signature"
  by (simp add: signed_def)

lemma is_space_toLowerChar: "is_space (toLowerChar c) = is_space c"
  by (auto simp: is_space_def toLowerChar_def)

lemma toLowerCase_dropWhile:
  "toLowerCase (dropWhile is_space s) = dropWhile is_space (toLowerCase s)"
  by (induction s) (simp_all add: toLowerCase_def is_space_toLowerChar)

lemma toLowerCase_trim: "toLowerCase (trim s) = trim (toLowerCase s)"
proof -
  have r: "toLowerCase (rev s) = rev (toLowerCase s)" for s
    by (simp add: toLowerCase_def rev_map)
  show ?thesis
    by (simp add: trim_def r toLowerCase_dropWhile)
qed

lemma USE_OLLAMA_trace_update [simp]: "USE_OLLAMA (s\<lparr>trace := t\<rparr>) = USE_OLLAMA s"
  by simp

lemma process_item_default_request:
  assumes "regex_match ''@character'' (item_text it) = None"
    and "regex_match ''@unhinge'' (item_text it) = None"
  shows "\<exists>evs. trace (fst (process_item e s it)) =
           trace s @
           (if USE_OLLAMA s
            then Ollama_chat (Turn System (persona s (chatGuid it) @ ollamaInstruction) #
                   splice_oldest (get_context s (chatGuid it) @ [Turn User (item_text it)]))
            else OpenAI_chat (Turn System (persona s (chatGuid it) @ openaiInstruction) #
                   splice_oldest (get_context s (chatGuid it) @ [Turn User (item_text it)])) True)
           # evs \<and>
         list_all (item_event (chatGuid it)) evs \<and>
         USE_OLLAMA (fst (process_item e s it)) = USE_OLLAMA s"
proof -
  define cg where "cg = chatGuid it"
  define ctx where "ctx = splice_oldest (get_context s cg @ [Turn User (item_text it)])"
  define rq where "rq = (if USE_OLLAMA s
            then Ollama_chat (Turn System (persona s cg @ ollamaInstruction) # ctx)
            else OpenAI_chat (Turn System (persona s cg @ openaiInstruction) # ctx) True)"
  obtain s3 r3 where c: "complete e (set_context cg ctx s) cg ctx = (s3, r3)"
    by (cases "complete e (set_context cg ctx s) cg ctx")
  have p: "process_item e s it =
             (case r3 of Inl err \<Rightarrow> (s3, Inl err) | Inr response \<Rightarrow> deliver e s3 cg ctx response)"
    using c unfolding cg_def ctx_def
    by (simp add: process_item_default [OF assms(1,2)] Let_def)
  have s3: "s3 = emit rq (set_context cg ctx s)"
    using complete_state [of e "set_context cg ctx s" cg ctx] c
    by (simp add: rq_def persona_def)
  have "\<exists>evs. trace (fst (process_item e s it)) = trace s @ rq # evs \<and>
          list_all (item_event cg) evs \<and>
          USE_OLLAMA (fst (process_item e s it)) = USE_OLLAMA s"
  proof (cases r3)
    case (Inl err)
    then show ?thesis
      using p s3 by (intro exI [of _ "[]"]) simp
  next
    case (Inr resp)
    obtain evs where ev: "list_all (item_event cg) evs"
      and alt: "fst (deliver e s3 cg ctx resp) = s3\<lparr>trace := trace s3 @ evs\<rparr> \<or>
         (\<exists>reply. fst (deliver e s3 cg ctx resp) =
           set_context cg (ctx @ [Turn Assistant reply]) s3
             \<lparr>trace := trace s3 @ evs @ [BB_text cg (signed reply)]\<rparr>)"
      using deliver_frame [of cg e s3 ctx resp] by blast
    from alt show ?thesis
    proof
      assume "fst (deliver e s3 cg ctx resp) = s3\<lparr>trace := trace s3 @ evs\<rparr>"
      then show ?thesis
        using p Inr s3 ev by (intro exI [of _ evs]) simp
    next
      assume "\<exists>reply. fst (deliver e s3 cg ctx resp) =
           set_context cg (ctx @ [Turn Assistant reply]) s3
             \<lparr>trace := trace s3 @ evs @ [BB_text cg (signed reply)]\<rparr>"
      then obtain reply where "fst (deliver e s3 cg ctx resp) =
           set_context cg (ctx @ [Turn Assistant reply]) s3
             \<lparr>trace := trace s3 @ evs @ [BB_text cg (signed reply)]\<rparr>" ..
      then show ?thesis
        using p Inr s3 ev by (intro exI [of _ "evs @ [BB_text cg (signed reply)]"]) simp
    qed
  qed
  then show ?thesis
    unfolding rq_def ctx_def cg_def .
qed


lemma parseCommand_character_flag:
  assumes "regex_match ''@character'' txt = Some g"
  shows "USE_OLLAMA (fst (parseCommand e s txt cg)) = USE_OLLAMA s"
    and "snd (parseCommand e s txt cg) \<noteq> Inr False"
  by (simp_all add: parseCommand_character [OF assms] Let_def generateCharacterPrompt_state)

lemma process_item_flag:
  assumes "regex_match ''@character'' (item_text it) \<noteq> None \<or>
           regex_match ''@unhinge'' (item_text it) = None"
  shows "USE_OLLAMA (fst (process_item e s it)) = USE_OLLAMA s"
proof (cases "regex_match ''@character'' (item_text it)")
  case None
  then have "regex_match ''@unhinge'' (item_text it) = None"
    using assms by simp
  then show ?thesis
    using process_item_default_request [OF None, of e s] by blast
next
  case (Some g)
  define s0 where "s0 = (if map_of (chatContexts s) (chatGuid it) = None
                         then set_context (chatGuid it) [] s else s)"
  obtain s1 r where p: "parseCommand e s0 (item_text it) (chatGuid it) = (s1, r)"
    by (cases "parseCommand e s0 (item_text it) (chatGuid it)")
  have "USE_OLLAMA s1 = USE_OLLAMA s0" "r \<noteq> Inr False"
    using parseCommand_character_flag [OF Some, of e s0 "chatGuid it"] p by simp_all
  moreover have "USE_OLLAMA s0 = USE_OLLAMA s"
    by (simp add: s0_def)
  ultimately show ?thesis
    using p
    by (auto simp: process_item_def Let_def s0_def [symmetric] split: sum.splits bool.splits)
qed

lemma loop_iteration_flag:
  "USE_OLLAMA (fst (loop_iteration e s it)) = USE_OLLAMA (fst (process_item e s it))"
  by (simp add: loop_iteration_def split: prod.split sum.split bool.split)

lemma parseCommand_cases:
  obtains (character) g where "regex_match ''@character'' txt = Some g"
  | (unhinge) val where "regex_match ''@character'' txt = None"
      "regex_match ''@unhinge'' txt = Some val"
  | (default) "regex_match ''@character'' txt = None" "regex_match ''@unhinge'' txt = None"
  by (cases "regex_match ''@character'' txt"; cases "regex_match ''@unhinge'' txt") auto

lemma parseCommand_frame:
  "\<exists>evs. trace (fst (parseCommand e s txt cg)) = trace s @ evs \<and>
         list_all (item_event cg) evs \<and>
         messageQueue (fst (parseCommand e s txt cg)) = messageQueue s \<and>
         isProcessingQueue (fst (parseCommand e s txt cg)) = isProcessingQueue s \<and>
         (snd (parseCommand e s txt cg) = Inr False \<longrightarrow> \<not> is_command txt) \<and>
         (snd (parseCommand e s txt cg) = Inr True \<longrightarrow> is_command txt)"
proof (cases "txt" rule: parseCommand_cases)
  case (character g)
  then show ?thesis
    by (cases "USE_OLLAMA s")
       (simp_all add: parseCommand_character [OF character] Let_def
          generateCharacterPrompt_state is_command_def)
next
  case (unhinge val)
  then show ?thesis
    by (simp add: parseCommand_unhinge is_command_def)
next
  case default
  then show ?thesis
    by (simp add: parseCommand_default is_command_def)
qed

lemma process_item_command:
  assumes "is_command (item_text it)"
  shows "process_item e s it =
           parseCommand e (if map_of (chatContexts s) (chatGuid it) = None
                           then set_context (chatGuid it) [] s else s)
             (item_text it) (chatGuid it)"
proof -
  define s0 where "s0 = (if map_of (chatContexts s) (chatGuid it) = None
                         then set_context (chatGuid it) [] s else s)"
  obtain s1 r where p: "parseCommand e s0 (item_text it) (chatGuid it) = (s1, r)"
    by (cases "parseCommand e s0 (item_text it) (chatGuid it)")
  have "r \<noteq> Inr False"
    using parseCommand_frame [of e s0 "item_text it" "chatGuid it"] p assms by auto
  then show ?thesis
    using p
    by (auto simp: process_item_def Let_def s0_def [symmetric] split: sum.splits bool.splits)
qed

section \<open>The assistant turn and the delivered text\<close>




section \<open>The backend selection flag\<close>

text \<open>
  Claim C7, as the code has it. For every message that matches the @unhinge pattern
  with argument \<open>arg\<close> and does not match the @character pattern, which the interpreter
  tries first, from any chat \<open>cg\<close>: the flag becomes true exactly when the argument,
  lowercased and trimmed, is "true"; the interpreter returns handled and nothing else
  of the state changes, so nothing is sent, and the iteration of the drain loop
  records nothing. The flag then selects the backend of every item that is not a
  command, from every chat, in every later state; and no item other than such an
  @unhinge command changes the flag.
\<close>

theorem unhinge_sets_flag:
  assumes "regex_match ''@character'' txt = None"
    and "regex_match ''@unhinge'' txt = Some arg"
  shows "parseCommand e s txt cg =
           (s\<lparr>USE_OLLAMA := (trim (toLowerCase arg) = ''true'')\<rparr>, Inr True) \<and>
         process_item e s (item cg txt) =
           ((if map_of (chatContexts s) cg = None then set_context cg [] s else s)
              \<lparr>USE_OLLAMA := (trim (toLowerCase arg) = ''true'')\<rparr>, Inr True) \<and>
         trace (fst (loop_iteration e s (item cg txt))) = trace s \<and>
         USE_OLLAMA (fst (loop_iteration e s (item cg txt))) = (trim (toLowerCase arg) = ''true'') \<and>
         (\<forall>e2 s2 it.
            regex_match ''@character'' (item_text it) = None \<and>
            regex_match ''@unhinge'' (item_text it) = None \<longrightarrow>
            (\<exists>ms evs. trace (fst (process_item e2 s2 it)) =
               trace s2 @ (if USE_OLLAMA s2 then Ollama_chat ms else OpenAI_chat ms True) # evs)) \<and>
         (\<forall>e2 s2 it.
            regex_match ''@character'' (item_text it) \<noteq> None \<or>
            regex_match ''@unhinge'' (item_text it) = None \<longrightarrow>
            USE_OLLAMA (fst (loop_iteration e2 s2 it)) = USE_OLLAMA s2)"
proof (intro conjI allI impI)
  show 1: "parseCommand e s txt cg =
          (s\<lparr>USE_OLLAMA := (trim (toLowerCase arg) = ''true'')\<rparr>, Inr True)" for s
    by (simp add: parseCommand_unhinge [OF assms] toLowerCase_trim)
  have c: "is_command (item_text (item cg txt))"
    using assms by (simp add: is_command_def item_def)
  show 2: "process_item e s (item cg txt) =
           ((if map_of (chatContexts s) cg = None then set_context cg [] s else s)
              \<lparr>USE_OLLAMA := (trim (toLowerCase arg) = ''true'')\<rparr>, Inr True)"
    using process_item_command [OF c, of e s] by (simp add: item_def 1)
  show "trace (fst (loop_iteration e s (item cg txt))) = trace s"
    by (simp add: loop_iteration_def 2)
  show "USE_OLLAMA (fst (loop_iteration e s (item cg txt))) = (trim (toLowerCase arg) = ''true'')"
    by (simp add: loop_iteration_def 2)
next
  fix e2 :: env and s2 :: state and it :: queue_item
  assume n: "regex_match ''@character'' (item_text it) = None \<and>
             regex_match ''@unhinge'' (item_text it) = None"
  show "\<exists>ms evs. trace (fst (process_item e2 s2 it)) =
               trace s2 @ (if USE_OLLAMA s2 then Ollama_chat ms else OpenAI_chat ms True) # evs"
  proof (cases "USE_OLLAMA s2")
    case True
    then show ?thesis
      using process_item_default_request [of it e2 s2] n by auto
  next
    case False
    then show ?thesis
      using process_item_default_request [of it e2 s2] n by auto
  qed
next
  fix e2 :: env and s2 :: state and it :: queue_item
  assume "regex_match ''@character'' (item_text it) \<noteq> None \<or>
          regex_match ''@unhinge'' (item_text it) = None"
  then show "USE_OLLAMA (fst (loop_iteration e2 s2 it)) = USE_OLLAMA s2"
    by (simp add: loop_iteration_flag process_item_flag)
qed

theorem unhinge_sets_flag_witness:
  "regex_match ''@character'' ''@unhinge TRUE '' = None \<and>
   regex_match ''@unhinge'' ''@unhinge TRUE '' = Some ''TRUE '' \<and>
   parseCommand (world None (Some ''yo'') True) boot ''@unhinge TRUE '' ''chat1'' =
     (boot\<lparr>USE_OLLAMA := True\<rparr>, Inr True) \<and>
   trace (fst (loop_iteration (world None (Some ''yo'') True) boot
                 (item ''chat1'' ''@unhinge TRUE ''))) = [] \<and>
   USE_OLLAMA (fst (loop_iteration (world None (Some ''yo'') True) boot
                      (item ''chat1'' ''@unhinge TRUE ''))) \<and>
   regex_match ''@character'' (item_text (item ''chat2'' ''@ava hi'')) = None \<and>
   regex_match ''@unhinge'' (item_text (item ''chat2'' ''@ava hi'')) = None \<and>
   (\<exists>ms evs. trace (fst (process_item (world None (Some ''yo'') True)
                            (boot\<lparr>USE_OLLAMA := True\<rparr>) (item ''chat2'' ''@ava hi''))) =
      Ollama_chat ms # evs) \<and>
   USE_OLLAMA (fst (loop_iteration (world None (Some ''yo'') True)
                      (boot\<lparr>USE_OLLAMA := True\<rparr>) (item ''chat2'' ''@ava hi'')))"
proof -
  let ?w = "world None (Some ''yo'') True"
  let ?i = "item ''chat2'' ''@ava hi''"
  let ?s = "boot\<lparr>USE_OLLAMA := True\<rparr>"
  have a: "regex_match ''@character'' ''@unhinge TRUE '' = None"
    by code_simp
  have b: "regex_match ''@unhinge'' ''@unhinge TRUE '' = Some ''TRUE ''"
    by code_simp
  have c: "regex_match ''@character'' (item_text ?i) = None"
    by code_simp
  have d: "regex_match ''@unhinge'' (item_text ?i) = None"
    by code_simp
  have t: "(trim (toLowerCase ''TRUE '') = ''true'') = True"
    by code_simp
  have f: "USE_OLLAMA ?s = True" "trace ?s = []" "trace boot = []"
    by (simp_all add: boot_def)
  note u = unhinge_sets_flag [OF a b, of ?w boot "''chat1''"]
  have 1: "parseCommand ?w boot ''@unhinge TRUE '' ''chat1'' = (?s, Inr True)"
    using u [THEN conjunct1] by (simp only: t)
  have x1: "trace (fst (loop_iteration ?w boot (item ''chat1'' ''@unhinge TRUE ''))) = []"
    using u [THEN conjunct2, THEN conjunct2, THEN conjunct1] by (simp only: f)
  have x2: "USE_OLLAMA (fst (loop_iteration ?w boot (item ''chat1'' ''@unhinge TRUE '')))"
    using u [THEN conjunct2, THEN conjunct2, THEN conjunct2, THEN conjunct1] by (simp only: t)
  have "\<exists>ms evs. trace (fst (process_item ?w ?s ?i)) =
          trace ?s @ (if USE_OLLAMA ?s then Ollama_chat ms else OpenAI_chat ms True) # evs"
    using u [THEN conjunct2, THEN conjunct2, THEN conjunct2, THEN conjunct2, THEN conjunct1,
             THEN spec [where x = ?w], THEN spec [where x = ?s], THEN spec [where x = ?i]] c d
    by (simp only: simp_thms)
  then have 2: "\<exists>ms evs. trace (fst (process_item ?w ?s ?i)) = Ollama_chat ms # evs"
    by (simp only: f if_True append_Nil)
  have "USE_OLLAMA (fst (loop_iteration ?w ?s ?i)) = USE_OLLAMA ?s"
    using u [THEN conjunct2, THEN conjunct2, THEN conjunct2, THEN conjunct2, THEN conjunct2,
             THEN spec [where x = ?w], THEN spec [where x = ?s], THEN spec [where x = ?i]] d
    by (simp only: simp_thms)
  then have 3: "USE_OLLAMA (fst (loop_iteration ?w ?s ?i))"
    by (simp only: f)
  show ?thesis
    using a b c d 1 x1 x2 2 3 by (intro conjI)
qed

text \<open>
  A message of two lines, \<^verbatim>\<open>@unhinge true\<close> and \<^verbatim>\<open>@character pirate\<close>: the @unhinge
  pattern matches it, with argument "true", but the @character case comes first. The
  flag stays false, and the synthesis request and the confirmation are sent.
\<close>

theorem unhinge_before_character_counterexample:
  "regex_match ''@unhinge'' (''@unhinge true'' @ [CHR 0x0A] @ ''@character pirate'') =
     Some ''true'' \<and>
   toLowerCase (trim ''true'') = ''true'' \<and>
   \<not> USE_OLLAMA (fst (parseCommand (world None None True) boot
                        (''@unhinge true'' @ [CHR 0x0A] @ ''@character pirate'') ''chat1'')) \<and>
   trace (fst (parseCommand (world None None True) boot
                 (''@unhinge true'' @ [CHR 0x0A] @ ''@character pirate'') ''chat1'')) =
     [OpenAI_chat [Turn System metaPrompt, Turn User ''pirate''] False,
      BB_text ''chat1'' (characterUpdated ''pirate'')]"
  by code_simp

section \<open>The bound on the context\<close>

text \<open>
  Claim C4 says that a chat's context never holds more than 10 turns. The code cuts the
  context down to its last 10 turns after pushing the user turn, and does not cut it
  after pushing the assistant turn: six exchanges in one chat leave 11 turns.
\<close>

theorem context_holds_eleven_turns:
  "length (get_context
     (fst (processMessageQueue (world (Some (Response (Some ''ok'') None)) None True)
             (boot\<lparr>messageQueue :=
                [item ''chat1'' ''@ava 1'', item ''chat1'' ''@ava 2'', item ''chat1'' ''@ava 3'',
                 item ''chat1'' ''@ava 4'', item ''chat1'' ''@ava 5'', item ''chat1'' ''@ava 6'']\<rparr>)))
     ''chat1'') = 11"
  by code_simp

section \<open>The reentrancy guard on an error path\<close>

text \<open>
  Claim C2 says that no error path leaves the guard set. With the bridge down, the reply
  of the first item cannot be sent, the \<^verbatim>\<open>catch\<close> block's own send throws as well, and the
  exception leaves \<open>processMessageQueue\<close> before the guard is released: the guard stays
  set, the second item stays in the queue, and an enqueue made after the bridge is back
  finds the guard set and drains nothing.
\<close>

theorem guard_stays_set_when_bridge_is_down:
  "snd (processMessageQueue (world (Some (Response (Some ''ok'') None)) None False)
          (boot\<lparr>messageQueue := [item ''chat1'' ''@ava hi'', item ''chat2'' ''@ava yo'']\<rparr>)) =
     Some BridgeError \<and>
   isProcessingQueue
     (fst (processMessageQueue (world (Some (Response (Some ''ok'') None)) None False)
          (boot\<lparr>messageQueue := [item ''chat1'' ''@ava hi'', item ''chat2'' ''@ava yo'']\<rparr>))) \<and>
   map item_text (messageQueue
     (fst (processMessageQueue (world (Some (Response (Some ''ok'') None)) None False)
          (boot\<lparr>messageQueue := [item ''chat1'' ''@ava hi'', item ''chat2'' ''@ava yo'']\<rparr>)))) =
     [''@ava yo''] \<and>
   map item_text (messageQueue
     (queueMessageProcessing (world (Some (Response (Some ''ok'') None)) None True)
        (fst (processMessageQueue (world (Some (Response (Some ''ok'') None)) None False)
          (boot\<lparr>messageQueue := [item ''chat1'' ''@ava hi'', item ''chat2'' ''@ava yo'']\<rparr>)))
        ''chat3'' ''@ava again'')) = [''@ava yo'', ''@ava again'']"
  by code_simp

section \<open>The sentinel of the local backend\<close>

lemma signed_confirmations:
  "signed pictureSent = pictureSent" "signed pictureFailed = pictureFailed"
  by code_simp+

lemma confirmations_without_sentinel:
  "\<not> includes_str pictureSent sentinel" "\<not> includes_str pictureFailed sentinel"
  by code_simp+

lemma picture_trace:
  "\<exists>evs. trace (fst (generateAndSendPicture e s cg d)) = trace s @ Images_generate d # evs \<and>
         filter is_image_request evs = []"
  by (simp add: generateAndSendPicture_def Let_def split: option.split)

lemma deliver_structural:
  "deliver e s cg ctx (structural_tool_call x d) =
     (case generateAndSendPicture e s cg (Some d) of
        (s2, ok) \<Rightarrow>
          (emit (BB_text cg (if ok then pictureSent else pictureFailed))
             (set_context cg (ctx @ [Turn Assistant (if ok then pictureSent else pictureFailed)]) s2),
           if bb_text e (clock s2) cg (if ok then pictureSent else pictureFailed)
           then Inr False else Inl BridgeError))"
  by (simp add: deliver_def resolve_reply_def structural_tool_call_def Let_def signed_confirmations
        split: prod.split)

lemma replace_prefix: "replace (pat @ rest) pat rep = rep @ rest"
proof (cases "pat @ rest")
  case Nil
  then show ?thesis by simp
next
  case (Cons a list)
  have "prefix pat (a # list)"
    using Cons [symmetric] by simp
  then have "replace (a # list) pat rep = rep @ drop (length pat) (a # list)"
    by simp
  then show ?thesis
    using Cons [symmetric] by simp
qed

lemma replace_first:
  "(\<forall>k<length pre. \<not> prefix pat (drop k (pre @ pat @ rest))) \<Longrightarrow>
   replace (pre @ pat @ rest) pat rep = pre @ rep @ rest"
proof (induction pre)
  case Nil
  show ?case by (simp add: replace_prefix)
next
  case (Cons a pre)
  have 0: "\<not> prefix pat (a # pre @ pat @ rest)"
    using Cons.prems [THEN spec [where x = 0]] by simp
  have "\<forall>k<length pre. \<not> prefix pat (drop k (pre @ pat @ rest))"
  proof (intro allI impI)
    fix k
    assume "k < length pre"
    then show "\<not> prefix pat (drop k (pre @ pat @ rest))"
      using Cons.prems [THEN spec [where x = "Suc k"]] by simp
  qed
  then have "replace (pre @ pat @ rest) pat rep = pre @ rep @ rest"
    by (rule Cons.IH)
  then show ?case
    using 0 by simp
qed

text \<open>
  Claim C6, as the code has it. When the local backend serves the request and its
  reply contains the sentinel, the gateway's result is a structural tool call whose
  description is the whole reply with the first occurrence of the sentinel removed and
  the ends trimmed: the text that follows the sentinel when the reply starts with it,
  the text before and after it otherwise. What follows is what follows the same call
  from the hosted backend, whatever its content: one request to the image backend,
  with that description, and a delivered reply that is the success confirmation or the
  failure confirmation, neither of which contains the sentinel.
\<close>

theorem sentinel_is_a_tool_call:
  assumes "USE_OLLAMA s"
    and "ollama_chat e (clock s) (Turn System (persona s cg @ ollamaInstruction) # ctx) = Some c"
    and "includes_str c sentinel"
  shows "\<exists>s1 r d.
           d = trim (replace c sentinel []) \<and>
           (\<forall>rest. c = sentinel @ rest \<longrightarrow> d = trim rest) \<and>
           (\<forall>pre rest.
              c = pre @ sentinel @ rest \<and>
              (\<forall>k<length pre. \<not> prefix sentinel (drop k c)) \<longrightarrow>
              d = trim (pre @ rest)) \<and>
           complete e s cg ctx = (s1, Inr r) \<and>
           r = structural_tool_call (Some c) d \<and>
           (\<forall>x. deliver e s1 cg ctx r = deliver e s1 cg ctx (structural_tool_call x d)) \<and>
           filter is_image_request (drop (length (trace s1)) (trace (fst (deliver e s1 cg ctx r)))) =
             [Images_generate (Some d)] \<and>
           last (trace (fst (deliver e s1 cg ctx r))) \<in>
             {BB_text cg pictureSent, BB_text cg pictureFailed} \<and>
           \<not> includes_str pictureSent sentinel \<and> \<not> includes_str pictureFailed sentinel"
proof -
  define d where "d = trim (replace c sentinel [])"
  define s1 where "s1 = emit (Ollama_chat (Turn System (persona s cg @ ollamaInstruction) # ctx)) s"
  define r where "r = structural_tool_call (Some c) d"
  have 1: "complete e s cg ctx = (s1, Inr r)"
    using assms by (simp add: complete_def Let_def s1_def r_def d_def structural_tool_call_def)
  have 2: "deliver e s1 cg ctx r = deliver e s1 cg ctx (structural_tool_call x d)" for x
    by (simp add: r_def deliver_structural)
  obtain s2 ok where g: "generateAndSendPicture e s1 cg (Some d) = (s2, ok)"
    by (cases "generateAndSendPicture e s1 cg (Some d)")
  obtain evs where ev: "trace s2 = trace s1 @ Images_generate (Some d) # evs"
    "filter is_image_request evs = []"
    using picture_trace [of e s1 cg "Some d"] g by auto
  have t: "trace (fst (deliver e s1 cg ctx r)) =
             trace s1 @ Images_generate (Some d) # evs
               @ [BB_text cg (if ok then pictureSent else pictureFailed)]"
    using g ev(1) by (simp add: r_def deliver_structural)
  have 3: "filter is_image_request (drop (length (trace s1)) (trace (fst (deliver e s1 cg ctx r)))) =
             [Images_generate (Some d)]"
    using ev(2) by (simp add: t)
  have 4: "last (trace (fst (deliver e s1 cg ctx r))) \<in>
             {BB_text cg pictureSent, BB_text cg pictureFailed}"
    by (simp add: t)
  have 5: "\<forall>rest. c = sentinel @ rest \<longrightarrow> d = trim rest"
    by (simp add: d_def replace_prefix)
  have 6: "\<forall>pre rest.
              c = pre @ sentinel @ rest \<and>
              (\<forall>k<length pre. \<not> prefix sentinel (drop k c)) \<longrightarrow>
              d = trim (pre @ rest)"
  proof (intro allI impI)
    fix pre rest
    assume h: "c = pre @ sentinel @ rest \<and> (\<forall>k<length pre. \<not> prefix sentinel (drop k c))"
    then have "\<forall>k<length pre. \<not> prefix sentinel (drop k (pre @ sentinel @ rest))"
      by blast
    then have "replace (pre @ sentinel @ rest) sentinel [] = pre @ [] @ rest"
      by (rule replace_first)
    then show "d = trim (pre @ rest)"
      using h by (simp add: d_def)
  qed
  show ?thesis
    using 1 2 3 4 5 6 confirmations_without_sentinel d_def r_def by blast
qed

theorem sentinel_is_a_tool_call_witness:
  "USE_OLLAMA (boot\<lparr>USE_OLLAMA := True\<rparr>) \<and>
   ollama_chat (world None (Some ''[REQUEST_PICTURE] a red bicycle'') True)
     (clock (boot\<lparr>USE_OLLAMA := True\<rparr>))
     (Turn System (persona (boot\<lparr>USE_OLLAMA := True\<rparr>) ''chat1'' @ ollamaInstruction)
        # [Turn User ''@ava draw''])
     = Some ''[REQUEST_PICTURE] a red bicycle'' \<and>
   includes_str ''[REQUEST_PICTURE] a red bicycle'' sentinel \<and>
   (\<exists>s1 r.
      complete (world None (Some ''[REQUEST_PICTURE] a red bicycle'') True)
        (boot\<lparr>USE_OLLAMA := True\<rparr>) ''chat1'' [Turn User ''@ava draw''] = (s1, Inr r) \<and>
      r = structural_tool_call (Some ''[REQUEST_PICTURE] a red bicycle'') ''a red bicycle'' \<and>
      filter is_image_request
        (drop (length (trace s1))
           (trace (fst (deliver (world None (Some ''[REQUEST_PICTURE] a red bicycle'') True)
                          s1 ''chat1'' [Turn User ''@ava draw''] r)))) =
        [Images_generate (Some ''a red bicycle'')] \<and>
      last (trace (fst (deliver (world None (Some ''[REQUEST_PICTURE] a red bicycle'') True)
                          s1 ''chat1'' [Turn User ''@ava draw''] r))) \<in>
        {BB_text ''chat1'' pictureSent, BB_text ''chat1'' pictureFailed})"
proof -
  let ?c = "''[REQUEST_PICTURE] a red bicycle''"
  let ?w = "world None (Some ?c) True"
  let ?s = "boot\<lparr>USE_OLLAMA := True\<rparr>"
  let ?ctx = "[Turn User ''@ava draw'']"
  have a: "USE_OLLAMA ?s"
    by simp
  have b: "ollama_chat ?w (clock ?s) (Turn System (persona ?s ''chat1'' @ ollamaInstruction) # ?ctx)
             = Some ?c"
    by (simp add: world_def)
  have c: "includes_str ?c sentinel"
    by code_simp
  have p: "?c = sentinel @ '' a red bicycle''"
    by code_simp
  have t: "trim '' a red bicycle'' = ''a red bicycle''"
    by code_simp
  obtain s1 r d where
    d: "\<forall>rest. ?c = sentinel @ rest \<longrightarrow> d = trim rest"
    and 1: "complete ?w ?s ''chat1'' ?ctx = (s1, Inr r)"
    and 2: "r = structural_tool_call (Some ?c) d"
    and 3: "filter is_image_request
              (drop (length (trace s1)) (trace (fst (deliver ?w s1 ''chat1'' ?ctx r)))) =
              [Images_generate (Some d)]"
    and 4: "last (trace (fst (deliver ?w s1 ''chat1'' ?ctx r))) \<in>
              {BB_text ''chat1'' pictureSent, BB_text ''chat1'' pictureFailed}"
    using sentinel_is_a_tool_call [OF a b c] by blast
  have "d = ''a red bicycle''"
    using d p t by metis
  then show ?thesis
    using a b c 1 2 3 4 by blast
qed

text \<open>
  The local backend answers \<^verbatim>\<open>Sure! [REQUEST_PICTURE] a red bicycle\<close>: the description
  that follows the sentinel is "a red bicycle", and the image backend is asked for
  "Sure!  a red bicycle"; the structural call of the hosted backend with the
  description "a red bicycle" asks it for "a red bicycle".
\<close>

theorem sentinel_after_text_counterexample:
  "includes_str ''Sure! [REQUEST_PICTURE] a red bicycle'' sentinel \<and>
   trace (fst (process_item (world None (Some ''Sure! [REQUEST_PICTURE] a red bicycle'') True)
                 (boot\<lparr>USE_OLLAMA := True\<rparr>) (item ''chat1'' ''@ava draw''))) =
     [Ollama_chat [Turn System (defaultPrompt @ ollamaInstruction), Turn User ''@ava draw''],
      Images_generate (Some ''Sure!  a red bicycle''),
      Http_get ''https://img'',
      BB_attachment ''chat1'' ''PNG'',
      BB_text ''chat1'' pictureSent] \<and>
   ''Sure!  a red bicycle'' \<noteq> ''a red bicycle'' \<and>
   trace (fst (deliver (world None None True)
                 (emit (OpenAI_chat [Turn System (defaultPrompt @ openaiInstruction),
                                     Turn User ''@ava draw''] True) boot)
                 ''chat1'' [Turn User ''@ava draw'']
                 (structural_tool_call None ''a red bicycle''))) =
     [OpenAI_chat [Turn System (defaultPrompt @ openaiInstruction), Turn User ''@ava draw''] True,
      Images_generate (Some ''a red bicycle''),
      Http_get ''https://img'',
      BB_attachment ''chat1'' ''PNG'',
      BB_text ''chat1'' pictureSent]"
  by code_simp

section \<open>The dedup ledgers\<close>

lemma length_prune_ledger: "length (prune_ledger l) \<le> 1000"
  by (simp add: prune_ledger_def)

lemma length_ledger_of: "length (ledger_of n) = n"
  by (simp add: ledger_of_def)

text \<open>
  Claim C8, as the code has it. For both ledgers, at the end of every poll cycle that
  runs to its end without an exception (the chat query and every message query
  succeed), the ledger holds at most 1000 entries; when a ledger holds more than 1000
  entries at the prune, exactly its 500 most recently added entries remain, in their
  order, and otherwise the ledger is left as it is.
\<close>

theorem ledgers_pruned_after_completed_cycle:
  assumes "bb_chat_query e (clock s) = Some chats"
    and "poll_chats e (emit BB_chat_query s) chats = (s1, None)"
  shows "length (seen (poll_tick e s)) \<le> 1000 \<and>
         length (processedMessages (poll_tick e s)) \<le> 1000 \<and>
         (1000 < length (seen s1) \<longrightarrow>
            seen (poll_tick e s) = drop (length (seen s1) - 500) (seen s1) \<and>
            length (seen (poll_tick e s)) = 500) \<and>
         (1000 < length (processedMessages s1) \<longrightarrow>
            processedMessages (poll_tick e s) =
              drop (length (processedMessages s1) - 500) (processedMessages s1) \<and>
            length (processedMessages (poll_tick e s)) = 500) \<and>
         (length (seen s1) \<le> 1000 \<longrightarrow> seen (poll_tick e s) = seen s1) \<and>
         (length (processedMessages s1) \<le> 1000 \<longrightarrow>
            processedMessages (poll_tick e s) = processedMessages s1)"
  using assms by (simp add: poll_tick_def prune_ledger_def)

theorem ledgers_pruned_after_completed_cycle_witness:
  "bb_chat_query (world None None True) (clock (boot\<lparr>seen := ledger_of 1001\<rparr>)) = Some [] \<and>
   poll_chats (world None None True) (emit BB_chat_query (boot\<lparr>seen := ledger_of 1001\<rparr>)) [] =
     (emit BB_chat_query (boot\<lparr>seen := ledger_of 1001\<rparr>), None) \<and>
   1000 < length (seen (emit BB_chat_query (boot\<lparr>seen := ledger_of 1001\<rparr>))) \<and>
   seen (poll_tick (world None None True) (boot\<lparr>seen := ledger_of 1001\<rparr>)) =
     drop 501 (ledger_of 1001) \<and>
   length (seen (poll_tick (world None None True) (boot\<lparr>seen := ledger_of 1001\<rparr>))) = 500 \<and>
   processedMessages (poll_tick (world None None True) (boot\<lparr>seen := ledger_of 1001\<rparr>)) = []"
proof -
  let ?w = "world None None True"
  let ?s = "boot\<lparr>seen := ledger_of 1001\<rparr>"
  have a: "bb_chat_query ?w (clock ?s) = Some []"
    by (simp add: world_def)
  have b: "poll_chats ?w (emit BB_chat_query ?s) [] = (emit BB_chat_query ?s, None)"
    by simp
  have c: "seen (emit BB_chat_query ?s) = ledger_of 1001"
    "processedMessages (emit BB_chat_query ?s) = []"
    by (simp_all add: boot_def)
  show ?thesis
    using a b ledgers_pruned_after_completed_cycle [OF a b]
    by (simp add: c length_ledger_of boot_def)
qed

text \<open>
  A cycle that an exception cuts short does not reach the prune. The ledger of seen
  messages holds 1000 entries; the cycle sees one new message in the first chat, and
  the message query of the second chat fails: the cycle ends with 1001 entries.
\<close>

theorem ledger_unpruned_after_failed_cycle_counterexample:
  "length (seen (boot\<lparr>seen := ledger_of 1000\<rparr>)) = 1000 \<and>
   length (seen (poll_tick failing_bridge (boot\<lparr>seen := ledger_of 1000\<rparr>))) = 1001"
proof -
  have n: "''new'' \<notin> set (ledger_of 1000)"
    by (auto simp: ledger_of_def)
  have t: "\<not> containsTrigger failing_bridge ''hello''"
    by code_simp
  have q: "bb_chat_query failing_bridge k = Some [''chat1'', ''chat2'']"
    "bb_message_query failing_bridge k ''chat1'' =
       Some [\<lparr>guid = ''new'', dateCreated = 1, dateDelivered = 0, msg_text = Some ''hello''\<rparr>]"
    "bb_message_query failing_bridge k ''chat2'' = None" for k
    by (simp_all add: failing_bridge_def world_def)
  show ?thesis
    using n t
    by (simp add: poll_tick_def q poll_message_def messageTime_def Let_def boot_def
          length_ledger_of)
qed

section \<open>The drain loop\<close>

lemma process_item_frame:
  "\<exists>evs. trace (fst (process_item e s it)) = trace s @ evs \<and>
         list_all (item_event (chatGuid it)) evs \<and>
         messageQueue (fst (process_item e s it)) = messageQueue s \<and>
         isProcessingQueue (fst (process_item e s it)) = isProcessingQueue s \<and>
         (snd (process_item e s it) = Inr True \<longrightarrow> is_command (item_text it))"
proof (cases "is_command (item_text it)")
  case True
  define s0 where "s0 = (if map_of (chatContexts s) (chatGuid it) = None
                         then set_context (chatGuid it) [] s else s)"
  have s0: "trace s0 = trace s" "messageQueue s0 = messageQueue s"
    "isProcessingQueue s0 = isProcessingQueue s"
    by (simp_all add: s0_def)
  have "process_item e s it = parseCommand e s0 (item_text it) (chatGuid it)"
    by (simp add: process_item_command [OF True] s0_def)
  then show ?thesis
    using parseCommand_frame [of e s0 "item_text it" "chatGuid it"] True
    by (simp only: s0) blast
next
  case False
  then have n: "regex_match ''@character'' (item_text it) = None"
    "regex_match ''@unhinge'' (item_text it) = None"
    by (simp_all add: is_command_def)
  define cg where "cg = chatGuid it"
  define ctx where "ctx = splice_oldest (get_context s cg @ [Turn User (item_text it)])"
  obtain s3 r3 where c: "complete e (set_context cg ctx s) cg ctx = (s3, r3)"
    by (cases "complete e (set_context cg ctx s) cg ctx")
  have p: "process_item e s it =
             (case r3 of Inl err \<Rightarrow> (s3, Inl err) | Inr response \<Rightarrow> deliver e s3 cg ctx response)"
    using c unfolding cg_def ctx_def
    by (simp add: process_item_default [OF n] Let_def)
  obtain rq where s3: "s3 = emit rq (set_context cg ctx s)" "item_event cg rq"
    using complete_state [of e "set_context cg ctx s" cg ctx] c
    by (cases "USE_OLLAMA s") simp_all
  have "\<exists>evs. trace (fst (process_item e s it)) = trace s @ evs \<and>
         list_all (item_event cg) evs \<and>
         messageQueue (fst (process_item e s it)) = messageQueue s \<and>
         isProcessingQueue (fst (process_item e s it)) = isProcessingQueue s \<and>
         snd (process_item e s it) \<noteq> Inr True"
  proof (cases r3)
    case (Inl err)
    then show ?thesis
      using p s3 by (intro exI [of _ "[rq]"]) simp
  next
    case (Inr resp)
    obtain evs where ev: "list_all (item_event cg) evs"
      and alt: "(snd (deliver e s3 cg ctx resp) = Inl JsonError \<and>
                 fst (deliver e s3 cg ctx resp) = s3\<lparr>trace := trace s3 @ evs\<rparr>) \<or>
         (\<exists>reply. fst (deliver e s3 cg ctx resp) =
           set_context cg (ctx @ [Turn Assistant reply]) s3
             \<lparr>trace := trace s3 @ evs @ [BB_text cg (signed reply)]\<rparr> \<and>
           snd (deliver e s3 cg ctx resp) =
           (if bb_text e (clock s3 + length evs) cg (signed reply)
            then Inr False else Inl BridgeError))"
      using deliver_frame [of cg e s3 ctx resp] by blast
    from alt show ?thesis
    proof
      assume "snd (deliver e s3 cg ctx resp) = Inl JsonError \<and>
                 fst (deliver e s3 cg ctx resp) = s3\<lparr>trace := trace s3 @ evs\<rparr>"
      then show ?thesis
        using p Inr s3 ev by (intro exI [of _ "rq # evs"]) simp
    next
      assume "\<exists>reply. fst (deliver e s3 cg ctx resp) =
           set_context cg (ctx @ [Turn Assistant reply]) s3
             \<lparr>trace := trace s3 @ evs @ [BB_text cg (signed reply)]\<rparr> \<and>
           snd (deliver e s3 cg ctx resp) =
           (if bb_text e (clock s3 + length evs) cg (signed reply)
            then Inr False else Inl BridgeError)"
      then obtain reply where "fst (deliver e s3 cg ctx resp) =
           set_context cg (ctx @ [Turn Assistant reply]) s3
             \<lparr>trace := trace s3 @ evs @ [BB_text cg (signed reply)]\<rparr>"
        and "snd (deliver e s3 cg ctx resp) =
           (if bb_text e (clock s3 + length evs) cg (signed reply)
            then Inr False else Inl BridgeError)"
        by blast
      then show ?thesis
        using p Inr s3 ev
        by (intro exI [of _ "rq # evs @ [BB_text cg (signed reply)]"]) simp
    qed
  qed
  then show ?thesis
    unfolding cg_def by blast
qed


lemma loop_iteration_frame:
  assumes "loop_iteration e s it = (s1, None)"
  shows "\<exists>evs. trace s1 = trace s @ evs \<and>
           (if snd (process_item e s it) = Inr True
            then list_all (item_event (chatGuid it)) evs
            else paced (chatGuid it) evs) \<and>
           messageQueue s1 = messageQueue s \<and> isProcessingQueue s1 = isProcessingQueue s"
proof -
  obtain s0 r where p: "process_item e s it = (s0, r)"
    by (cases "process_item e s it")
  obtain evs where ev: "trace s0 = trace s @ evs" "list_all (item_event (chatGuid it)) evs"
    and q: "messageQueue s0 = messageQueue s" "isProcessingQueue s0 = isProcessingQueue s"
    and h: "r = Inr True \<longrightarrow> is_command (item_text it)"
    using process_item_frame [of e s it] p by auto
  show ?thesis
  proof (cases r)
    case (Inl err)
    then have "s1 = emit (Delay 500) (emit (BB_text (chatGuid it) errorReply) s0)"
      using assms p by (simp add: loop_iteration_def split: if_splits)
    then show ?thesis
      using ev q p Inl
      by (intro exI [of _ "evs @ [BB_text (chatGuid it) errorReply, Delay 500]"])
         (simp add: paced_def butlast_append)
  next
    case (Inr b)
    show ?thesis
    proof (cases b)
      case True
      then have "s1 = s0"
        using assms p Inr by (simp add: loop_iteration_def)
      then show ?thesis
        using ev q h p Inr True
        by (intro exI [of _ evs]) simp
    next
      case False
      then have "s1 = emit (Delay 500) s0"
        using assms p Inr by (simp add: loop_iteration_def)
      then show ?thesis
        using ev q p Inr False
        by (intro exI [of _ "evs @ [Delay 500]"])
           (simp add: paced_def)
    qed
  qed
qed

lemma process_item_default_events:
  assumes "regex_match ''@character'' (item_text it) = None"
    and "regex_match ''@unhinge'' (item_text it) = None"
  shows "\<exists>req evs. trace (fst (process_item e s it)) = trace s @ req # evs \<and>
           request_for (item_text it) req \<and> item_event (chatGuid it) req \<and>
           list_all (item_event (chatGuid it)) evs \<and>
           snd (process_item e s it) \<noteq> Inr True \<and>
           (snd (process_item e s it) = Inr False \<longrightarrow>
              evs \<noteq> [] \<and> reply_to (chatGuid it) (last evs))"
proof -
  define cg where "cg = chatGuid it"
  define ctx where "ctx = splice_oldest (get_context s cg @ [Turn User (item_text it)])"
  have ctx: "ctx \<noteq> []" "last ctx = Turn User (item_text it)"
    by (auto simp: ctx_def splice_oldest_def)
  obtain s3 r3 where c: "complete e (set_context cg ctx s) cg ctx = (s3, r3)"
    by (cases "complete e (set_context cg ctx s) cg ctx")
  have p: "process_item e s it =
             (case r3 of Inl err \<Rightarrow> (s3, Inl err) | Inr response \<Rightarrow> deliver e s3 cg ctx response)"
    using c unfolding cg_def ctx_def
    by (simp add: process_item_default [OF assms] Let_def)
  obtain rq where s3: "s3 = emit rq (set_context cg ctx s)" "item_event cg rq"
    "request_for (item_text it) rq"
    using complete_state [of e "set_context cg ctx s" cg ctx] c ctx
    by (cases "USE_OLLAMA s") simp_all
  have "\<exists>evs. trace (fst (process_item e s it)) = trace s @ rq # evs \<and>
         list_all (item_event cg) evs \<and>
         snd (process_item e s it) \<noteq> Inr True \<and>
         (snd (process_item e s it) = Inr False \<longrightarrow> evs \<noteq> [] \<and> reply_to cg (last evs))"
  proof (cases r3)
    case (Inl err)
    then show ?thesis
      using p s3 by (intro exI [of _ "[]"]) simp
  next
    case (Inr resp)
    obtain evs where ev: "list_all (item_event cg) evs"
      and alt: "(snd (deliver e s3 cg ctx resp) = Inl JsonError \<and>
                 fst (deliver e s3 cg ctx resp) = s3\<lparr>trace := trace s3 @ evs\<rparr>) \<or>
         (\<exists>reply. fst (deliver e s3 cg ctx resp) =
           set_context cg (ctx @ [Turn Assistant reply]) s3
             \<lparr>trace := trace s3 @ evs @ [BB_text cg (signed reply)]\<rparr> \<and>
           snd (deliver e s3 cg ctx resp) =
           (if bb_text e (clock s3 + length evs) cg (signed reply)
            then Inr False else Inl BridgeError))"
      using deliver_frame [of cg e s3 ctx resp] by blast
    from alt show ?thesis
    proof
      assume "snd (deliver e s3 cg ctx resp) = Inl JsonError \<and>
                 fst (deliver e s3 cg ctx resp) = s3\<lparr>trace := trace s3 @ evs\<rparr>"
      then show ?thesis
        using p Inr s3 ev by (intro exI [of _ evs]) simp
    next
      assume "\<exists>reply. fst (deliver e s3 cg ctx resp) =
           set_context cg (ctx @ [Turn Assistant reply]) s3
             \<lparr>trace := trace s3 @ evs @ [BB_text cg (signed reply)]\<rparr> \<and>
           snd (deliver e s3 cg ctx resp) =
           (if bb_text e (clock s3 + length evs) cg (signed reply)
            then Inr False else Inl BridgeError)"
      then obtain reply where "fst (deliver e s3 cg ctx resp) =
           set_context cg (ctx @ [Turn Assistant reply]) s3
             \<lparr>trace := trace s3 @ evs @ [BB_text cg (signed reply)]\<rparr>"
        and "snd (deliver e s3 cg ctx resp) =
           (if bb_text e (clock s3 + length evs) cg (signed reply)
            then Inr False else Inl BridgeError)"
        by blast
      then show ?thesis
        using p Inr s3 ev
        by (intro exI [of _ "evs @ [BB_text cg (signed reply)]"]) simp
    qed
  qed
  then show ?thesis
    using s3(2,3) unfolding cg_def by blast
qed

lemma loop_iteration_segment:
  assumes "loop_iteration e s it = (s1, None)"
  shows "\<exists>evs. trace s1 = trace s @ evs \<and> iteration_events it evs"
proof (cases "item_text it" rule: parseCommand_cases)
  case (character g)
  define cg where "cg = chatGuid it"
  define d where "d = trim g"
  define s0 where "s0 = (if map_of (chatContexts s) cg = None then set_context cg [] s else s)"
  define rq where "rq = (if USE_OLLAMA s then Ollama_chat [Turn System metaPrompt, Turn User d]
                         else OpenAI_chat [Turn System metaPrompt, Turn User d] False)"
  have rq: "request_for d rq"
    by (simp add: rq_def)
  have c: "is_command (item_text it)"
    using character by (simp add: is_command_def)
  obtain s2 r where p: "process_item e s it = (s2, r)"
    by (cases "process_item e s it")
  have "parseCommand e s0 (item_text it) cg = (s2, r)"
    using process_item_command [OF c, of e s] p by (simp add: s0_def cg_def)
  then have t: "trace s2 = trace s @ [rq, BB_text cg (characterUpdated d)]"
    and r: "r = Inr True \<or> r = Inl BridgeError"
    by (auto simp: parseCommand_character [OF character] Let_def generateCharacterPrompt_state
          s0_def d_def rq_def split: if_splits)
  from r have "trace s1 = trace s @ [rq, BB_text cg (characterUpdated d)] \<or>
               trace s1 = trace s @ [rq, BB_text cg (characterUpdated d),
                                      BB_text cg errorReply, Delay 500]"
  proof
    assume "r = Inr True"
    then show ?thesis
      using assms p t by (simp add: loop_iteration_def)
  next
    assume "r = Inl BridgeError"
    then show ?thesis
      using assms p t by (auto simp: loop_iteration_def cg_def split: if_splits)
  qed
  then show ?thesis
    using rq character by (auto simp: iteration_events_def cg_def d_def)
next
  case (unhinge val)
  have c: "is_command (item_text it)"
    using unhinge by (simp add: is_command_def)
  have "process_item e s it =
          ((if map_of (chatContexts s) (chatGuid it) = None
            then set_context (chatGuid it) [] s else s)
             \<lparr>USE_OLLAMA := (toLowerCase (trim val) = ''true'')\<rparr>, Inr True)"
    using process_item_command [OF c, of e s] by (simp add: parseCommand_unhinge [OF unhinge])
  then have "trace s1 = trace s"
    using assms by (auto simp: loop_iteration_def split: if_splits)
  then show ?thesis
    using unhinge by (simp add: iteration_events_def)
next
  case default
  define cg where "cg = chatGuid it"
  obtain s2 r where p: "process_item e s it = (s2, r)"
    by (cases "process_item e s it")
  obtain req evs where t: "trace s2 = trace s @ req # evs"
    and rq: "request_for (item_text it) req" "item_event cg req"
    and ev: "list_all (item_event cg) evs"
    and nt: "r \<noteq> Inr True"
    and rp: "r = Inr False \<longrightarrow> evs \<noteq> [] \<and> reply_to cg (last evs)"
    using process_item_default_events [OF default, of e s] p unfolding cg_def by auto
  have "message_segment cg (item_text it) (drop (length (trace s)) (trace s1))"
  proof (cases r)
    case (Inl err)
    then have "trace s1 = trace s @ req # evs @ [BB_text cg errorReply, Delay 500]"
      using assms p t by (auto simp: loop_iteration_def cg_def split: if_splits)
    then show ?thesis
      using rq ev by (simp add: message_segment_def butlast_append)
  next
    case (Inr b)
    then have b: "b = False"
      using nt by simp
    then have "trace s1 = trace s @ req # evs @ [Delay 500]"
      using assms p t Inr by (auto simp: loop_iteration_def)
    moreover have "evs \<noteq> []" "reply_to cg (last evs)"
      using rp Inr b by simp_all
    ultimately show ?thesis
      using rq ev by (cases evs) (simp_all add: message_segment_def butlast_append)
  qed
  moreover have "\<exists>evs. trace s1 = trace s @ evs"
    using loop_iteration_frame [OF assms] by blast
  ultimately show ?thesis
    using default by (auto simp: iteration_events_def cg_def)
qed

lemma drain_loop_Nil:
  "messageQueue s = [] \<Longrightarrow> drain_loop e s = (s\<lparr>isProcessingQueue := False\<rparr>, None)"
  by (subst drain_loop.simps) simp

lemma drain_loop_Cons:
  "messageQueue s = it # rest \<Longrightarrow>
   drain_loop e s =
     (case loop_iteration e (s\<lparr>messageQueue := rest\<rparr>) it of
        (s1, None) \<Rightarrow> drain_loop e s1
      | (s1, Some err) \<Rightarrow> (s1, Some err))"
  by (subst drain_loop.simps) simp

lemma drain_loop_in_queue_order:
  "messageQueue s = q \<Longrightarrow>
   drain_loop e s =
     (case in_queue_order e s q of
        (s1, None) \<Rightarrow> (s1\<lparr>isProcessingQueue := False\<rparr>, None)
      | (s1, Some err) \<Rightarrow> (s1, Some err))"
proof (induction q arbitrary: s)
  case Nil
  then show ?case
    by (simp add: drain_loop_Nil)
next
  case (Cons it rest)
  obtain s1 r where li: "loop_iteration e (s\<lparr>messageQueue := rest\<rparr>) it = (s1, r)"
    by (cases "loop_iteration e (s\<lparr>messageQueue := rest\<rparr>) it")
  show ?case
  proof (cases r)
    case None
    then have "messageQueue s1 = rest"
      using loop_iteration_frame [of e "s\<lparr>messageQueue := rest\<rparr>" it s1] li by auto
    then show ?thesis
      using Cons.IH [of s1] Cons.prems li None by (simp add: drain_loop_Cons)
  next
    case (Some err)
    then show ?thesis
      using Cons.prems li by (simp add: drain_loop_Cons)
  qed
qed

lemma drain_loop_segments:
  "messageQueue s = q \<Longrightarrow> drain_loop e s = (s', None) \<Longrightarrow>
   \<exists>segs. list_all2 iteration_events q segs \<and> trace s' = trace s @ concat segs \<and>
          messageQueue s' = [] \<and> \<not> isProcessingQueue s'"
proof (induction q arbitrary: s)
  case Nil
  then show ?case
    by (intro exI [of _ "[]"]) (auto simp: drain_loop_Nil)
next
  case (Cons it rest)
  obtain s1 r where li: "loop_iteration e (s\<lparr>messageQueue := rest\<rparr>) it = (s1, r)"
    by (cases "loop_iteration e (s\<lparr>messageQueue := rest\<rparr>) it")
  have r: "r = None" and d: "drain_loop e s1 = (s', None)"
    using Cons.prems li by (auto simp: drain_loop_Cons split: option.splits)
  obtain evs where ev: "trace s1 = trace s @ evs" "iteration_events it evs"
    using loop_iteration_segment [of e "s\<lparr>messageQueue := rest\<rparr>" it s1] li r by auto
  have q: "messageQueue s1 = rest"
    using loop_iteration_frame [of e "s\<lparr>messageQueue := rest\<rparr>" it s1] li r by auto
  obtain segs where "list_all2 iteration_events rest segs"
    "trace s' = trace s1 @ concat segs" "messageQueue s' = []" "\<not> isProcessingQueue s'"
    using Cons.IH [OF q d] by blast
  then show ?case
    using ev by (intro exI [of _ "evs # segs"]) simp
qed

text \<open>
  Claim C9, as the code has it. The drain loop is the drain in queue order: the items
  are taken in the order of the queue, each iteration finished before the next begins.
  For a drain that runs to its end, the record of calls is the concatenation, in queue
  order, of one segment per item, and each segment is that item's: for a message that
  is not a command it starts with the backend request that ends with that message as
  the user turn, holds only events of that item's chat, the last of them a text sent to
  that chat, and ends with the 500 ms delay; for an @character command it is the
  synthesis request for its description and the confirmation to its chat (followed by
  the failure reply and the delay when the bridge refused the confirmation); for an
  @unhinge command it is empty. At the end the queue is empty and the guard is
  released. In every iteration that returns to the loop, the item's events are
  followed by the 500 ms delay, and hold no other delay, whether the item succeeded or
  failed, unless the item was a handled command, which leaves through \<^verbatim>\<open>continue\<close> and
  is followed by no delay.
\<close>

theorem drain_is_fifo:
  assumes "\<not> isProcessingQueue s"
    and "processMessageQueue e s = (s', None)"
  shows "(\<exists>segs. list_all2 iteration_events (messageQueue s) segs \<and>
            trace s' = trace s @ concat segs \<and>
            messageQueue s' = [] \<and> \<not> isProcessingQueue s') \<and>
         (messageQueue s \<noteq> [] \<longrightarrow>
            (\<exists>s1. in_queue_order e (s\<lparr>isProcessingQueue := True\<rparr>) (messageQueue s) = (s1, None) \<and>
                  s' = s1\<lparr>isProcessingQueue := False\<rparr>)) \<and>
         (\<forall>s0. drain_loop e s0 =
            (case in_queue_order e s0 (messageQueue s0) of
               (s1, None) \<Rightarrow> (s1\<lparr>isProcessingQueue := False\<rparr>, None)
             | (s1, Some err) \<Rightarrow> (s1, Some err))) \<and>
         (\<forall>s0 it s1.
            loop_iteration e s0 it = (s1, None) \<longrightarrow>
            (\<exists>evs. trace s1 = trace s0 @ evs \<and> iteration_events it evs \<and>
               (if snd (process_item e s0 it) = Inr True
                then list_all (item_event (chatGuid it)) evs
                else paced (chatGuid it) evs)))"
proof (intro conjI)
  show "\<exists>segs. list_all2 iteration_events (messageQueue s) segs \<and>
           trace s' = trace s @ concat segs \<and>
           messageQueue s' = [] \<and> \<not> isProcessingQueue s'"
  proof (cases "messageQueue s = []")
    case True
    then have "s' = s"
      using assms by (simp add: processMessageQueue_def)
    then show ?thesis
      using True assms(1) by (intro exI [of _ "[]"]) simp
  next
    case False
    then have d: "drain_loop e (s\<lparr>isProcessingQueue := True\<rparr>) = (s', None)"
      using assms by (simp add: processMessageQueue_def)
    show ?thesis
      using drain_loop_segments [OF refl d] by simp
  qed
next
  show "messageQueue s \<noteq> [] \<longrightarrow>
            (\<exists>s1. in_queue_order e (s\<lparr>isProcessingQueue := True\<rparr>) (messageQueue s) = (s1, None) \<and>
                  s' = s1\<lparr>isProcessingQueue := False\<rparr>)"
  proof
    assume "messageQueue s \<noteq> []"
    then have d: "drain_loop e (s\<lparr>isProcessingQueue := True\<rparr>) = (s', None)"
      using assms by (simp add: processMessageQueue_def)
    obtain s1 r where o: "in_queue_order e (s\<lparr>isProcessingQueue := True\<rparr>) (messageQueue s) = (s1, r)"
      by (cases "in_queue_order e (s\<lparr>isProcessingQueue := True\<rparr>) (messageQueue s)")
    have "drain_loop e (s\<lparr>isProcessingQueue := True\<rparr>) =
            (case r of None \<Rightarrow> (s1\<lparr>isProcessingQueue := False\<rparr>, None)
                     | Some err \<Rightarrow> (s1, Some err))"
      using drain_loop_in_queue_order [of "s\<lparr>isProcessingQueue := True\<rparr>" "messageQueue s" e] o
      by simp
    then have "r = None \<and> s' = s1\<lparr>isProcessingQueue := False\<rparr>"
      using d by (cases r) auto
    then show "\<exists>s1. in_queue_order e (s\<lparr>isProcessingQueue := True\<rparr>) (messageQueue s) = (s1, None) \<and>
                  s' = s1\<lparr>isProcessingQueue := False\<rparr>"
      using o by blast
  qed
next
  show "\<forall>s0. drain_loop e s0 =
            (case in_queue_order e s0 (messageQueue s0) of
               (s1, None) \<Rightarrow> (s1\<lparr>isProcessingQueue := False\<rparr>, None)
             | (s1, Some err) \<Rightarrow> (s1, Some err))"
    using drain_loop_in_queue_order [OF refl] by blast
next
  show "\<forall>s0 it s1.
            loop_iteration e s0 it = (s1, None) \<longrightarrow>
            (\<exists>evs. trace s1 = trace s0 @ evs \<and> iteration_events it evs \<and>
               (if snd (process_item e s0 it) = Inr True
                then list_all (item_event (chatGuid it)) evs
                else paced (chatGuid it) evs))"
  proof (intro allI impI)
    fix s0 :: state and it :: queue_item and s1 :: state
    assume l: "loop_iteration e s0 it = (s1, None)"
    obtain evs where a: "trace s1 = trace s0 @ evs" "iteration_events it evs"
      using loop_iteration_segment [OF l] by blast
    obtain evs' where b: "trace s1 = trace s0 @ evs'"
      "if snd (process_item e s0 it) = Inr True
       then list_all (item_event (chatGuid it)) evs' else paced (chatGuid it) evs'"
      using loop_iteration_frame [OF l] by blast
    have "evs' = evs"
      using a(1) b(1) by simp
    then show "\<exists>evs. trace s1 = trace s0 @ evs \<and> iteration_events it evs \<and>
               (if snd (process_item e s0 it) = Inr True
                then list_all (item_event (chatGuid it)) evs
                else paced (chatGuid it) evs)"
      using a b(2) by blast
  qed
qed

theorem drain_is_fifo_witness:
  "\<not> isProcessingQueue
       (boot\<lparr>messageQueue := [item ''chat1'' ''@unhinge true'', item ''chat2'' ''@ava hi'']\<rparr>) \<and>
   snd (processMessageQueue (world None (Some ''yo'') True)
          (boot\<lparr>messageQueue := [item ''chat1'' ''@unhinge true'', item ''chat2'' ''@ava hi'']\<rparr>))
     = None \<and>
   (\<exists>segs.
      list_all2 iteration_events
        [item ''chat1'' ''@unhinge true'', item ''chat2'' ''@ava hi''] segs \<and>
      trace (fst (processMessageQueue (world None (Some ''yo'') True)
          (boot\<lparr>messageQueue := [item ''chat1'' ''@unhinge true'', item ''chat2'' ''@ava hi'']\<rparr>)))
        = concat segs) \<and>
   snd (in_queue_order (world None (Some ''yo'') True)
          (boot\<lparr>messageQueue := [item ''chat1'' ''@unhinge true'', item ''chat2'' ''@ava hi''],
                isProcessingQueue := True\<rparr>)
          [item ''chat1'' ''@unhinge true'', item ''chat2'' ''@ava hi'']) = None \<and>
   snd (loop_iteration (world None (Some ''yo'') True) boot (item ''chat2'' ''@ava hi'')) = None \<and>
   snd (process_item (world None (Some ''yo'') True) boot (item ''chat2'' ''@ava hi'')) \<noteq> Inr True \<and>
   (\<exists>evs. trace (fst (loop_iteration (world None (Some ''yo'') True) boot
                         (item ''chat2'' ''@ava hi''))) = evs \<and>
      iteration_events (item ''chat2'' ''@ava hi'') evs \<and> paced ''chat2'' evs)"
proof -
  let ?w = "world None (Some ''yo'') True"
  let ?q = "[item ''chat1'' ''@unhinge true'', item ''chat2'' ''@ava hi'']"
  let ?s = "boot\<lparr>messageQueue := ?q\<rparr>"
  let ?i = "item ''chat2'' ''@ava hi''"
  have a: "\<not> isProcessingQueue ?s"
    by (simp add: boot_def)
  have n: "snd (processMessageQueue ?w ?s) = None"
    by code_simp
  then have b: "processMessageQueue ?w ?s = (fst (processMessageQueue ?w ?s), None)"
    by (simp add: prod_eq_iff)
  have q: "messageQueue ?s = ?q" "trace ?s = []"
    by (simp_all add: boot_def)
  have l: "snd (loop_iteration ?w boot ?i) = None"
    by code_simp
  then have l': "loop_iteration ?w boot ?i = (fst (loop_iteration ?w boot ?i), None)"
    by (simp add: prod_eq_iff)
  have r: "snd (process_item ?w boot ?i) \<noteq> Inr True"
    by code_simp
  have g: "chatGuid ?i = ''chat2''" "trace boot = []"
    by (simp_all add: item_def boot_def)
  note u = drain_is_fifo [OF a b]
  have 1: "\<exists>segs. list_all2 iteration_events ?q segs \<and>
             trace (fst (processMessageQueue ?w ?s)) = concat segs"
    using u [THEN conjunct1] unfolding q by auto
  have 2: "snd (in_queue_order ?w (?s\<lparr>isProcessingQueue := True\<rparr>) ?q) = None"
    using u [THEN conjunct2, THEN conjunct1] unfolding q by auto
  have 3: "\<exists>evs. trace (fst (loop_iteration ?w boot ?i)) = evs \<and>
             iteration_events ?i evs \<and> paced ''chat2'' evs"
    using u [THEN conjunct2, THEN conjunct2, THEN conjunct2,
             THEN spec [where x = boot], THEN spec [where x = ?i],
             THEN spec [where x = "fst (loop_iteration ?w boot ?i)"]] l' r
    unfolding g by auto
  show ?thesis
    using a n 1 2 l r 3 by (intro conjI)
qed

text \<open>
  A queue that holds one @unhinge command: the item is taken and processed (the flag is
  set, the queue is empty) and no delay follows it. With an ordinary message behind it,
  the whole drain has one delay for two items.
\<close>

theorem command_without_delay_counterexample:
  "trace (fst (processMessageQueue (world None (Some ''yo'') True)
                 (boot\<lparr>messageQueue := [item ''chat1'' ''@unhinge true'']\<rparr>))) = [] \<and>
   messageQueue (fst (processMessageQueue (world None (Some ''yo'') True)
                 (boot\<lparr>messageQueue := [item ''chat1'' ''@unhinge true'']\<rparr>))) = [] \<and>
   USE_OLLAMA (fst (processMessageQueue (world None (Some ''yo'') True)
                 (boot\<lparr>messageQueue := [item ''chat1'' ''@unhinge true'']\<rparr>))) \<and>
   trace (fst (processMessageQueue (world None (Some ''yo'') True)
                 (boot\<lparr>messageQueue :=
                    [item ''chat1'' ''@unhinge true'', item ''chat2'' ''@ava hi'']\<rparr>))) =
     [Ollama_chat [Turn System (defaultPrompt @ ollamaInstruction), Turn User ''@ava hi''],
      BB_text ''chat2'' (''yo '' @ signature),
      Delay 500]"
  by code_simp

section \<open>The @character token without a description\<close>

lemma last_splice_oldest: "last (splice_oldest (xs @ [x])) = x"
  by (simp add: splice_oldest_def)

lemma containsTrigger_character:
  "includes_str (toLowerCase txt) ''@character'' \<Longrightarrow> containsTrigger e txt"
proof -
  have "toLowerCase ''@character'' = ''@character''"
    by code_simp
  then show "includes_str (toLowerCase txt) ''@character'' \<Longrightarrow> containsTrigger e txt"
    by (simp add: containsTrigger_def TRIGGERS_def)
qed

text \<open>
  Claim C10, as the code has it. For every message whose text contains "@character"
  (in any case) and matches neither command pattern: the poller's trigger test holds,
  so a fresh message with that text is marked and enqueued; the interpreter returns
  not handled and leaves the state alone; and the processing of the item sends the
  selected backend a request whose context ends with the message as a user turn.
\<close>

theorem bare_character_falls_through:
  assumes "includes_str (toLowerCase txt) ''@character''"
    and "regex_match ''@character'' txt = None"
    and "regex_match ''@unhinge'' txt = None"
  shows "containsTrigger e txt \<and>
         (\<forall>s cg m.
            guid m \<noteq> [] \<and> guid m \<notin> set (seen s) \<and> \<not> messageTime m < startupTime s \<and>
            msg_text m = Some txt \<and> guid m \<notin> set (processedMessages s) \<longrightarrow>
            poll_message e cg s m =
              queueMessageProcessing e
                (s\<lparr>seen := seen s @ [guid m],
                   processedMessages := processedMessages s @ [guid m]\<rparr>) cg txt) \<and>
         (\<forall>s cg. parseCommand e s txt cg = (s, Inr False)) \<and>
         (\<forall>s cg. \<exists>ms evs.
            trace (fst (process_item e s (item cg txt))) =
              trace s @ (if USE_OLLAMA s then Ollama_chat ms else OpenAI_chat ms True) # evs \<and>
            ms = Turn System (persona s cg @
                    (if USE_OLLAMA s then ollamaInstruction else openaiInstruction))
                  # splice_oldest (get_context s cg @ [Turn User txt]) \<and>
            last ms = Turn User txt)"
proof (intro conjI allI impI)
  show "containsTrigger e txt"
    using assms(1) by (rule containsTrigger_character)
next
  fix s :: state and cg :: string and m :: message
  assume "guid m \<noteq> [] \<and> guid m \<notin> set (seen s) \<and> \<not> messageTime m < startupTime s \<and>
          msg_text m = Some txt \<and> guid m \<notin> set (processedMessages s)"
  then show "poll_message e cg s m =
               queueMessageProcessing e
                 (s\<lparr>seen := seen s @ [guid m],
                    processedMessages := processedMessages s @ [guid m]\<rparr>) cg txt"
    using containsTrigger_character [OF assms(1), of e]
    by (simp add: poll_message_def Let_def)
next
  fix s :: state and cg :: string
  show "parseCommand e s txt cg = (s, Inr False)"
    by (rule parseCommand_default [OF assms(2,3)])
next
  fix s :: state and cg :: string
  have i: "item_text (item cg txt) = txt" "chatGuid (item cg txt) = cg"
    by (simp_all add: item_def)
  obtain evs where
    t: "trace (fst (process_item e s (item cg txt))) =
           trace s @
           (if USE_OLLAMA s
            then Ollama_chat (Turn System (persona s cg @ ollamaInstruction) #
                   splice_oldest (get_context s cg @ [Turn User txt]))
            else OpenAI_chat (Turn System (persona s cg @ openaiInstruction) #
                   splice_oldest (get_context s cg @ [Turn User txt])) True)
           # evs"
    using process_item_default_request [of "item cg txt" e s] assms(2,3)
    unfolding i by blast
  have n: "splice_oldest (get_context s cg @ [Turn User txt]) \<noteq> []"
    using last_splice_oldest [of "get_context s cg" "Turn User txt"]
    by (auto simp: splice_oldest_def)
  show "\<exists>ms evs.
            trace (fst (process_item e s (item cg txt))) =
              trace s @ (if USE_OLLAMA s then Ollama_chat ms else OpenAI_chat ms True) # evs \<and>
            ms = Turn System (persona s cg @
                    (if USE_OLLAMA s then ollamaInstruction else openaiInstruction))
                  # splice_oldest (get_context s cg @ [Turn User txt]) \<and>
            last ms = Turn User txt"
    using t n by (cases "USE_OLLAMA s") (simp_all add: last_splice_oldest)
qed

theorem bare_character_falls_through_witness:
  "includes_str (toLowerCase ''@Character'') ''@character'' \<and>
   regex_match ''@character'' ''@Character'' = None \<and>
   regex_match ''@unhinge'' ''@Character'' = None \<and>
   containsTrigger (world (Some (Response (Some ''hi'') None)) None True) ''@Character'' \<and>
   parseCommand (world (Some (Response (Some ''hi'') None)) None True) boot ''@Character'' ''chat1''
     = (boot, Inr False) \<and>
   (\<exists>evs. trace (fst (process_item (world (Some (Response (Some ''hi'') None)) None True) boot
                         (item ''chat1'' ''@Character''))) =
      OpenAI_chat [Turn System (defaultPrompt @ openaiInstruction), Turn User ''@Character''] True
        # evs)"
proof -
  let ?w = "world (Some (Response (Some ''hi'') None)) None True"
  have a: "includes_str (toLowerCase ''@Character'') ''@character''"
    by code_simp
  have b: "regex_match ''@character'' ''@Character'' = None"
    by code_simp
  have c: "regex_match ''@unhinge'' ''@Character'' = None"
    by code_simp
  note u = bare_character_falls_through [OF a b c, of ?w]
  have 1: "containsTrigger ?w ''@Character''"
    using u by (rule conjunct1)
  have 2: "parseCommand ?w boot ''@Character'' ''chat1'' = (boot, Inr False)"
    using u [THEN conjunct2, THEN conjunct2, THEN conjunct1,
             THEN spec [where x = boot], THEN spec [where x = "''chat1''"]] .
  have f: "USE_OLLAMA boot = False" "trace boot = []"
    "persona boot ''chat1'' = defaultPrompt"
    "splice_oldest (get_context boot ''chat1'' @ [Turn User ''@Character'']) =
       [Turn User ''@Character'']"
    by (simp_all add: boot_def persona_def splice_oldest_def get_context_def)
  have 3: "\<exists>evs. trace (fst (process_item ?w boot (item ''chat1'' ''@Character''))) =
      OpenAI_chat [Turn System (defaultPrompt @ openaiInstruction), Turn User ''@Character''] True
        # evs"
    using u [THEN conjunct2, THEN conjunct2, THEN conjunct2,
             THEN spec [where x = boot], THEN spec [where x = "''chat1''"]]
    unfolding f by auto
  show ?thesis
    using a b c 1 2 3 by (intro conjI)
qed

text \<open>
  The text \<^verbatim>\<open>@unhinge true @character\<close> holds the token with nothing after it, and is a
  trigger match; the @unhinge pattern matches it, the interpreter returns handled, and
  the message reaches no backend and no context.
\<close>

theorem bare_character_with_unhinge_counterexample:
  "includes_str (toLowerCase ''@unhinge true @character'') ''@character'' \<and>
   regex_match ''@character'' ''@unhinge true @character'' = None \<and>
   containsTrigger (world (Some (Response (Some ''hi'') None)) None True)
     ''@unhinge true @character'' \<and>
   snd (parseCommand (world (Some (Response (Some ''hi'') None)) None True) boot
          ''@unhinge true @character'' ''chat1'') = Inr True \<and>
   trace (fst (process_item (world (Some (Response (Some ''hi'') None)) None True) boot
                 (item ''chat1'' ''@unhinge true @character''))) = [] \<and>
   get_context (fst (process_item (world (Some (Response (Some ''hi'') None)) None True) boot
                 (item ''chat1'' ''@unhinge true @character''))) ''chat1'' = []"
  by code_simp

end
